theory Spec2Isabelle
  imports Complex_Main
begin

section \<open>Birthday Surprise: the scene and interaction state machine\<close>

text \<open>
  The page is a single React component \<open>BirthdaySurprise\<close> (\<open>src/App.jsx\<close>, and
  \<open>src/App.tsx\<close> with the same handlers) holding the stage, the candle flag, the modal,
  the set of opened gifts and a global bridge variable \<open>window._pendingGiftId\<close>. Two
  child components carry state of their own: \<open>CakeAnimals\<close> (App.jsx: jittered positions
  around six zone anchors, recomputed by an interval) and \<open>Gifts\<close> (the memoised catalog).

  The embedding is by explicit state passing. One record holds the React state of the
  page and of its mounted children, together with the part of the host the code talks
  to: the timer table behind \<open>setTimeout\<close>, \<open>setInterval\<close> and \<open>clearInterval\<close>, a clock in
  milliseconds, and the stream of results that \<open>Math.random()\<close> is going to return.
  A state update issued by a handler or a timer callback is followed by the commit
  of the re-render (\<open>commit\<close> below), which mounts and unmounts the conditionally rendered
  children and runs their effects and effect cleanups.

  Numbers are JavaScript doubles. Arithmetic is written on \<open>real\<close> with every operation
  passed through a rounding function \<open>fl\<close>, a parameter of the model: facts that need
  something about it assume it monotone and exact on the integers that fit a double,
  which holds for IEEE round-to-nearest and for exact arithmetic (\<open>fl = (\<lambda>x. x)\<close>).
\<close>

subsection \<open>Utilities\<close>

text \<open>\<open>const rand = (min, max) => Math.random() * (max - min) + min\<close>, with \<open>u\<close> the
  result of the call of \<open>Math.random()\<close>.\<close>

definition rand :: "(real \<Rightarrow> real) \<Rightarrow> real \<Rightarrow> real \<Rightarrow> real \<Rightarrow> real" where
  "rand fl u lo hi = fl (fl (u * fl (hi - lo)) + lo)"

text \<open>The generator after \<open>k\<close> more calls of \<open>Math.random()\<close>.\<close>

definition drop_draws :: "nat \<Rightarrow> (nat \<Rightarrow> real) \<Rightarrow> (nat \<Rightarrow> real)" where
  "drop_draws k rnd = (\<lambda>n. rnd (n + k))"

subsection \<open>Data\<close>

datatype Stage = door | cake | gifts

text \<open>The callbacks the code hands to the host's timers: \<open>() => setStage("gifts")\<close>
  (handleBlowCandles), \<open>() => setShowConfetti((s) => !s)\<close> (the page's interval) and the
  interval callback of \<open>CakeAnimals\<close>.\<close>

datatype callback = SetStageGifts | ToggleConfetti | CakeAnimalsTick

record timer =
  tid :: nat
  due :: nat
  period :: "nat option"
  cb :: callback

record xy =
  px :: real
  py :: real

record spot =
  left_pc :: real
  top_pc :: real

record CakeAnimals_state =
  tick :: nat
  spots :: "spot list"
  interval :: "nat option"

record Gift =
  gift_id :: int
  hue :: int
  message :: string

record page =
  stage :: Stage
  candlesLit :: bool
  modalOpen :: bool
  modalMsg :: string
  openedIds :: "int set"
  showConfetti :: bool
  pendingGiftId :: "int option"
  cakeAnimals :: "CakeAnimals_state option"
  giftsMemo :: "Gift list option"
  now :: nat
  timers :: "timer list"
  nextTimerId :: nat
  Math_random :: "nat \<Rightarrow> real"

subsection \<open>The host's timers\<close>

definition setTimeout :: "callback \<Rightarrow> nat \<Rightarrow> page \<Rightarrow> nat \<times> page" where
  "setTimeout f delay s =
     (nextTimerId s,
      s\<lparr>timers := timers s @ [\<lparr>tid = nextTimerId s, due = now s + delay, period = None, cb = f\<rparr>],
        nextTimerId := Suc (nextTimerId s)\<rparr>)"

definition setInterval :: "callback \<Rightarrow> nat \<Rightarrow> page \<Rightarrow> nat \<times> page" where
  "setInterval f delay s =
     (nextTimerId s,
      s\<lparr>timers := timers s @ [\<lparr>tid = nextTimerId s, due = now s + delay, period = Some delay, cb = f\<rparr>],
        nextTimerId := Suc (nextTimerId s)\<rparr>)"

definition clearInterval :: "nat \<Rightarrow> page \<Rightarrow> page" where
  "clearInterval i s = s\<lparr>timers := filter (\<lambda>t. tid t \<noteq> i) (timers s)\<rparr>"

subsection \<open>useInterval\<close>

text \<open>
  The second effect of \<open>useInterval\<close>: with a delay it registers the interval and keeps
  the id for its cleanup, with \<open>delay === null\<close> it does nothing. The registered function
  reads \<open>savedRef.current\<close>, which the first effect sets to the callback of the latest
  render; the callbacks here depend on no render, so the timer carries the callback.
\<close>

definition useInterval_effect :: "callback \<Rightarrow> nat option \<Rightarrow> page \<Rightarrow> nat option \<times> page" where
  "useInterval_effect f delay s =
     (case delay of
        None \<Rightarrow> (None, s)
      | Some d \<Rightarrow> (let (i, s') = setInterval f d s in (Some i, s')))"

definition useInterval_cleanup :: "nat option \<Rightarrow> page \<Rightarrow> page" where
  "useInterval_cleanup h s = (case h of None \<Rightarrow> s | Some i \<Rightarrow> clearInterval i s)"

subsection \<open>CakeAnimals (App.jsx)\<close>

definition fallbacks :: "string list" where
  "fallbacks =
     [[CHR 0xF0, CHR 0x9F, CHR 0x90, CHR 0xB0], [CHR 0xF0, CHR 0x9F, CHR 0x90, CHR 0xB1],
      [CHR 0xF0, CHR 0x9F, CHR 0x90, CHR 0xBB], [CHR 0xF0, CHR 0x9F, CHR 0xA6, CHR 0x8A],
      [CHR 0xF0, CHR 0x9F, CHR 0x90, CHR 0xBC], [CHR 0xF0, CHR 0x9F, CHR 0x90, CHR 0xA8]]"

definition COUNT :: "string list \<Rightarrow> nat" where
  "COUNT images = min (if length images = 0 then 0 else length images) 6"

definition entries :: "string list \<Rightarrow> string list" where
  "entries images = (if COUNT images \<noteq> 0 then take (COUNT images) images else fallbacks)"

definition ZONES :: "xy list" where
  "ZONES =
     [\<lparr>px = 85, py = 65\<rparr>, \<lparr>px = 17, py = 48\<rparr>, \<lparr>px = 15, py = 28\<rparr>,
      \<lparr>px = 80, py = 28\<rparr>, \<lparr>px = 20, py = 78\<rparr>, \<lparr>px = 75, py = 78\<rparr>]"

definition JITTER :: xy where
  "JITTER = \<lparr>px = 1, py = 1\<rparr>"

text \<open>\<open>entries.length || 6\<close>, the length given to \<open>Array.from\<close>.\<close>

definition spots_length :: "string list \<Rightarrow> nat" where
  "spots_length images = (if length (entries images) = 0 then 6 else length (entries images))"

text \<open>One element of the array: \<open>left\<close> is computed before \<open>top\<close>, so entity \<open>i\<close> takes
  the draws \<open>u\<close> and \<open>v\<close> in this order.\<close>

definition new_spot :: "(real \<Rightarrow> real) \<Rightarrow> nat \<Rightarrow> real \<Rightarrow> real \<Rightarrow> spot" where
  "new_spot fl i u v =
     \<lparr>left_pc = fl (px (ZONES ! (i mod 6)) + fl (fl (fl (u * 2) - 1) * px JITTER)),
      top_pc = fl (py (ZONES ! (i mod 6)) + fl (fl (fl (v * 2) - 1) * py JITTER))\<rparr>"

definition new_spots :: "(real \<Rightarrow> real) \<Rightarrow> nat \<Rightarrow> (nat \<Rightarrow> real) \<Rightarrow> spot list" where
  "new_spots fl n rnd = map (\<lambda>i. new_spot fl i (rnd (2 * i)) (rnd (2 * i + 1))) [0..<n]"

text \<open>Mounting: the \<open>useState\<close> initialisers run in the render, the interval of 4000 ms
  is registered by the effect.\<close>

definition CakeAnimals_mount :: "(real \<Rightarrow> real) \<Rightarrow> string list \<Rightarrow> page \<Rightarrow> page" where
  "CakeAnimals_mount fl images s =
     (let n = spots_length images;
          sp = new_spots fl n (Math_random s);
          s1 = s\<lparr>Math_random := drop_draws (2 * n) (Math_random s)\<rparr>;
          (h, s2) = useInterval_effect CakeAnimalsTick (Some 4000) s1
      in s2\<lparr>cakeAnimals := Some \<lparr>tick = 0, spots = sp, interval = h\<rparr>\<rparr>)"

text \<open>Unmounting runs the cleanup of the effect; the component's state is gone.\<close>

definition CakeAnimals_unmount :: "page \<Rightarrow> page" where
  "CakeAnimals_unmount s =
     (case cakeAnimals s of
        None \<Rightarrow> s
      | Some c \<Rightarrow> (useInterval_cleanup (interval c) s)\<lparr>cakeAnimals := None\<rparr>)"

text \<open>The callback given to \<open>useInterval\<close>: \<open>setSpots(Array.from(...))\<close> and
  \<open>setTick((t) => t + 1)\<close>. A state setter of a component that is not mounted changes
  nothing.\<close>

definition CakeAnimals_interval :: "(real \<Rightarrow> real) \<Rightarrow> string list \<Rightarrow> page \<Rightarrow> page" where
  "CakeAnimals_interval fl images s =
     (case cakeAnimals s of
        None \<Rightarrow> s
      | Some c \<Rightarrow>
          (let n = spots_length images
           in s\<lparr>Math_random := drop_draws (2 * n) (Math_random s),
                cakeAnimals := Some (c\<lparr>spots := new_spots fl n (Math_random s), tick := tick c + 1\<rparr>)\<rparr>))"

subsection \<open>Gifts\<close>

text \<open>The messages are the bytes of the source's literals (UTF-8).\<close>

definition GIFT_MESSAGES :: "string list" where
  "GIFT_MESSAGES =
     [''Ch'' @ [CHR 0xC3, CHR 0xBA] @ ''c b'' @ [CHR 0xE1, CHR 0xBA, CHR 0xA1] @ ''n tu'' @
        [CHR 0xE1, CHR 0xBB, CHR 0x95] @ ''i m'' @ [CHR 0xE1, CHR 0xBB, CHR 0x9B] @ ''i lu'' @
        [CHR 0xC3, CHR 0xB4] @ ''n r'' @ [CHR 0xE1, CHR 0xBB, CHR 0xB1] @ ''c r'' @
        [CHR 0xE1, CHR 0xBB, CHR 0xA1] @ '' nh'' @ [CHR 0xC6, CHR 0xB0] @ '' ph'' @
        [CHR 0xC3, CHR 0xA1] @ ''o hoa v'' @ [CHR 0xC3, CHR 0xA0] @ '' nh'' @
        [CHR 0xE1, CHR 0xBA, CHR 0xB9] @ '' nh'' @ [CHR 0xC3, CHR 0xA0] @ ''ng nh'' @
        [CHR 0xC6, CHR 0xB0] @ '' b'' @ [CHR 0xC3, CHR 0xB3] @ ''ng bay '' @
        [CHR 0xF0, CHR 0x9F, CHR 0x8E, CHR 0x88],
      ''Ch'' @ [CHR 0xC3, CHR 0xBA] @ ''c m'' @ [CHR 0xE1, CHR 0xBB, CHR 0x8D] @ ''i '' @
        [CHR 0xC4, CHR 0x91] @ ''i'' @ [CHR 0xE1, CHR 0xBB, CHR 0x81] @ ''u b'' @
        [CHR 0xE1, CHR 0xBA, CHR 0xA1] @ ''n '' @
        [CHR 0xC6, CHR 0xB0, CHR 0xE1, CHR 0xBB, CHR 0x9B] @ ''c '' @
        [CHR 0xC4, CHR 0x91, CHR 0xE1, CHR 0xBB, CHR 0x81] @ ''u g'' @
        [CHR 0xE1, CHR 0xBA, CHR 0xA7] @ ''n h'' @ [CHR 0xC6, CHR 0xA1] @ ''n m'' @
        [CHR 0xE1, CHR 0xBB, CHR 0x97] @ ''i ng'' @ [CHR 0xC3, CHR 0xA0] @ ''y '' @
        [CHR 0xE2, CHR 0x9C, CHR 0xA8],
      ''Lu'' @ [CHR 0xC3, CHR 0xB4] @ ''n kho'' @ [CHR 0xE1, CHR 0xBA, CHR 0xBB] @ '', lu'' @
        [CHR 0xC3, CHR 0xB4] @ ''n vui v'' @ [CHR 0xC3, CHR 0xA0] @ '' c'' @
        [CHR 0xC6, CHR 0xB0, CHR 0xE1, CHR 0xBB, CHR 0x9D] @ ''i th'' @
        [CHR 0xE1, CHR 0xBA, CHR 0xAD] @ ''t t'' @ [CHR 0xC6, CHR 0xB0, CHR 0xC6, CHR 0xA1] @
        ''i nh'' @ [CHR 0xC3, CHR 0xA9] @ ''! '' @ [CHR 0xF0, CHR 0x9F, CHR 0x98, CHR 0x8A],
      ''Th'' @ [CHR 0xC3, CHR 0xAA] @ ''m m'' @ [CHR 0xE1, CHR 0xBB, CHR 0x99] @ ''t tu'' @
        [CHR 0xE1, CHR 0xBB, CHR 0x95] @ ''i '' @ [CHR 0xE2, CHR 0x80, CHR 0x93] @ '' th'' @
        [CHR 0xC3, CHR 0xAA] @ ''m nhi'' @ [CHR 0xE1, CHR 0xBB, CHR 0x81] @ ''u h'' @
        [CHR 0xC3, CHR 0xA0] @ ''nh tr'' @ [CHR 0xC3, CHR 0xAC] @ ''nh '' @
        [CHR 0xC4, CHR 0x91, CHR 0xC3, CHR 0xA1] @ ''ng nh'' @ [CHR 0xE1, CHR 0xBB, CHR 0x9B] @
        '' '' @ [CHR 0xF0, CHR 0x9F, CHR 0x92, CHR 0x96],
      ''C'' @ [CHR 0xC3, CHR 0xB4] @ ''ng vi'' @ [CHR 0xE1, CHR 0xBB, CHR 0x87] @ ''c thu'' @
        [CHR 0xE1, CHR 0xBA, CHR 0xAD] @ ''n l'' @ [CHR 0xE1, CHR 0xBB, CHR 0xA3] @ ''i, t'' @
        [CHR 0xC3, CHR 0xAC] @ ''nh c'' @ [CHR 0xE1, CHR 0xBA, CHR 0xA3] @ ''m ng'' @
        [CHR 0xE1, CHR 0xBB, CHR 0x8D] @ ''t ng'' @ [CHR 0xC3, CHR 0xA0] @ ''o, t'' @
        [CHR 0xC3, CHR 0xBA] @ ''i l'' @ [CHR 0xC3, CHR 0xBA] @ ''c n'' @ [CHR 0xC3, CHR 0xA0] @
        ''o c'' @ [CHR 0xC5, CHR 0xA9] @ ''ng '' @
        [CHR 0xC4, CHR 0x91, CHR 0xE1, CHR 0xBA, CHR 0xA7] @ ''y! '' @
        [CHR 0xF0, CHR 0x9F, CHR 0x92, CHR 0xBC, CHR 0xF0, CHR 0x9F, CHR 0x92, CHR 0x97],
      [CHR 0xC4, CHR 0x90] @ ''i '' @ [CHR 0xC4, CHR 0x91, CHR 0xC3, CHR 0xA2] @ ''u c'' @
        [CHR 0xC5, CHR 0xA9] @ ''ng g'' @ [CHR 0xE1, CHR 0xBA, CHR 0xB7] @ ''p '' @
        [CHR 0xC4, CHR 0x91] @ ''i'' @ [CHR 0xE1, CHR 0xBB, CHR 0x81] @ ''u t'' @
        [CHR 0xE1, CHR 0xBB, CHR 0x91] @ ''t l'' @ [CHR 0xC3, CHR 0xA0] @ ''nh v'' @
        [CHR 0xC3, CHR 0xA0] @ '' ng'' @ [CHR 0xC6, CHR 0xB0, CHR 0xE1, CHR 0xBB, CHR 0x9D] @
        ''i d'' @ [CHR 0xE1, CHR 0xBB, CHR 0x85] @ '' th'' @
        [CHR 0xC6, CHR 0xB0, CHR 0xC6, CHR 0xA1] @ ''ng nh'' @ [CHR 0xC6, CHR 0xB0] @ '' b'' @
        [CHR 0xE1, CHR 0xBA, CHR 0xA1] @ ''n '' @ [CHR 0xF0, CHR 0x9F, CHR 0x8E, CHR 0x81],
      ''N'' @ [CHR 0xE1, CHR 0xBB, CHR 0x97] @ '' l'' @ [CHR 0xE1, CHR 0xBB, CHR 0xB1] @ ''c h'' @
        [CHR 0xC3, CHR 0xB4] @ ''m nay l'' @ [CHR 0xC3, CHR 0xA0] @ '' ph'' @
        [CHR 0xC3, CHR 0xA9] @ ''p m'' @ [CHR 0xC3, CHR 0xA0] @ ''u c'' @
        [CHR 0xE1, CHR 0xBB, CHR 0xA7] @ ''a ng'' @ [CHR 0xC3, CHR 0xA0] @ ''y mai '' @
        [CHR 0xE2, CHR 0x80, CHR 0x93] @ '' c'' @ [CHR 0xE1, CHR 0xBB, CHR 0x91] @ '' l'' @
        [CHR 0xC3, CHR 0xAA] @ ''n nh'' @ [CHR 0xC3, CHR 0xA9] @ ''! '' @
        [CHR 0xF0, CHR 0x9F, CHR 0x8C, CHR 0x9F],
      ''Ch'' @ [CHR 0xC3, CHR 0xBA] @ ''c b'' @ [CHR 0xE1, CHR 0xBA, CHR 0xA1] @ ''n lu'' @
        [CHR 0xC3, CHR 0xB4] @ ''n '' @
        [CHR 0xC4, CHR 0x91, CHR 0xC6, CHR 0xB0, CHR 0xE1, CHR 0xBB, CHR 0xA3] @ ''c y'' @
        [CHR 0xC3, CHR 0xAA] @ ''u th'' @ [CHR 0xC6, CHR 0xB0, CHR 0xC6, CHR 0xA1] @ ''ng v'' @
        [CHR 0xC3, CHR 0xA0] @ '' y'' @ [CHR 0xC3, CHR 0xAA] @ ''u ch'' @ [CHR 0xC3, CHR 0xAD] @
        ''nh m'' @ [CHR 0xC3, CHR 0xAC] @ ''nh h'' @ [CHR 0xC6, CHR 0xA1] @ ''n '' @
        [CHR 0xF0, CHR 0x9F, CHR 0x92, CHR 0x9D]]"

text \<open>\<open>GIFT_MESSAGES.map((m, i) => ({ id: i, hue: Math.floor(rand(0, 360)), message: m }))\<close>,
  computed once per mounted \<open>Gifts\<close> (\<open>useMemo\<close> with no dependencies).\<close>

definition Gifts_useMemo :: "(real \<Rightarrow> real) \<Rightarrow> (nat \<Rightarrow> real) \<Rightarrow> Gift list" where
  "Gifts_useMemo fl rnd =
     map (\<lambda>(i, m). \<lparr>gift_id = int i, hue = \<lfloor>rand fl (rnd i) 0 360\<rfloor>, message = m\<rparr>)
       (enumerate 0 GIFT_MESSAGES)"

definition Gifts_mount :: "(real \<Rightarrow> real) \<Rightarrow> page \<Rightarrow> page" where
  "Gifts_mount fl s =
     s\<lparr>giftsMemo := Some (Gifts_useMemo fl (Math_random s)),
       Math_random := drop_draws (length GIFT_MESSAGES) (Math_random s)\<rparr>"

subsection \<open>The page: BirthdaySurprise\<close>

text \<open>The six imported photos; the bundler turns each import into a URL, written here
  as the module path.\<close>

definition cakeImages :: "string list" where
  "cakeImages =
     [''../images/1.jpg'', ''../images/2.jpg'', ''../images/3.jpg'',
      ''../images/4.jpg'', ''../images/5.png'', ''../images/6.jpg'']"

text \<open>
  The commit of a render: \<open>{stage === "cake" && <CakeAnimals images={cakeImages} />}\<close>
  and \<open>{stage === "gifts" && <Gifts ... />}\<close>. A child whose condition became true is
  mounted, one whose condition became false is unmounted, a mounted one is kept.
\<close>

definition commit :: "(real \<Rightarrow> real) \<Rightarrow> page \<Rightarrow> page" where
  "commit fl s =
     (let s1 = (if stage s = cake
                then (if cakeAnimals s = None then CakeAnimals_mount fl cakeImages s else s)
                else CakeAnimals_unmount s)
      in if stage s1 = gifts
         then (if giftsMemo s1 = None then Gifts_mount fl s1 else s1)
         else s1\<lparr>giftsMemo := None\<rparr>)"

text \<open>The page after its first render and effects: the \<open>useState\<close> initial values, no
  \<open>window._pendingGiftId\<close> yet, and the confetti interval of 5000 ms registered.\<close>

definition initial :: "(nat \<Rightarrow> real) \<Rightarrow> page" where
  "initial rnd =
     snd (useInterval_effect ToggleConfetti (Some 5000)
       \<lparr>stage = door, candlesLit = True, modalOpen = False, modalMsg = [],
        openedIds = {}, showConfetti = True, pendingGiftId = None,
        cakeAnimals = None, giftsMemo = None,
        now = 0, timers = [], nextTimerId = 0, Math_random = rnd\<rparr>)"

definition handleEnter :: "page \<Rightarrow> page" where
  "handleEnter s = s\<lparr>stage := cake\<rparr>"

definition handleBlowCandles :: "page \<Rightarrow> page" where
  "handleBlowCandles s = snd (setTimeout SetStageGifts 600 (s\<lparr>candlesLit := False\<rparr>))"

definition handleOpenGift :: "int \<Rightarrow> string \<Rightarrow> page \<Rightarrow> page" where
  "handleOpenGift giftId text s =
     s\<lparr>modalMsg := text, modalOpen := True, pendingGiftId := Some giftId\<rparr>"

text \<open>\<open>typeof id === "number"\<close> holds exactly when the bridge variable holds an id.\<close>

definition handleCloseModal :: "page \<Rightarrow> page" where
  "handleCloseModal s =
     (let s1 = s\<lparr>modalOpen := False\<rparr>
      in case pendingGiftId s1 of
           Some i \<Rightarrow> s1\<lparr>openedIds := insert i (openedIds s1), pendingGiftId := None\<rparr>
         | None \<Rightarrow> s1)"

text \<open>\<open>openedIds.has(g.id)\<close> in \<open>Gifts\<close>.\<close>

definition isOpened :: "page \<Rightarrow> int \<Rightarrow> bool" where
  "isOpened s i = (i \<in> openedIds s)"

subsection \<open>Timer callbacks and the event loop\<close>

definition run_callback :: "(real \<Rightarrow> real) \<Rightarrow> callback \<Rightarrow> page \<Rightarrow> page" where
  "run_callback fl f s =
     (case f of
        SetStageGifts \<Rightarrow> s\<lparr>stage := gifts\<rparr>
      | ToggleConfetti \<Rightarrow> s\<lparr>showConfetti := (\<not> showConfetti s)\<rparr>
      | CakeAnimalsTick \<Rightarrow> CakeAnimals_interval fl cakeImages s)"

text \<open>
  The host runs the callback of timer \<open>i\<close>: only a registered timer whose time has come
  can fire. A timeout leaves the table, an interval is armed again; then the callback
  runs and the page re-renders.
\<close>

definition timer_fires :: "(real \<Rightarrow> real) \<Rightarrow> nat \<Rightarrow> page \<Rightarrow> page" where
  "timer_fires fl i s =
     (case find (\<lambda>t. tid t = i) (timers s) of
        None \<Rightarrow> s
      | Some t \<Rightarrow>
          if now s < due t then s
          else
            (let s1 = (case period t of
                         None \<Rightarrow> s\<lparr>timers := filter (\<lambda>t'. tid t' \<noteq> i) (timers s)\<rparr>
                       | Some p \<Rightarrow>
                           s\<lparr>timers := map (\<lambda>t'. if tid t' = i then t'\<lparr>due := now s + p\<rparr> else t')
                                          (timers s)\<rparr>)
             in commit fl (run_callback fl (cb t) s1)))"

text \<open>
  What can happen to the page: a call of one of the four handlers, time passing, or
  a timer firing. \<open>calls\<close> runs a sequence of them, with the re-render after each.
\<close>

datatype call = Enter | BlowCandles | OpenGift int string | CloseModal | Elapse nat | TimerFires nat

fun perform :: "(real \<Rightarrow> real) \<Rightarrow> page \<Rightarrow> call \<Rightarrow> page" where
  "perform fl s Enter = commit fl (handleEnter s)"
| "perform fl s BlowCandles = commit fl (handleBlowCandles s)"
| "perform fl s (OpenGift giftId text) = commit fl (handleOpenGift giftId text s)"
| "perform fl s CloseModal = commit fl (handleCloseModal s)"
| "perform fl s (Elapse d) = s\<lparr>now := now s + d\<rparr>"
| "perform fl s (TimerFires i) = timer_fires fl i s"

definition calls :: "(real \<Rightarrow> real) \<Rightarrow> page \<Rightarrow> call list \<Rightarrow> page" where
  "calls fl s cs = foldl (perform fl) s cs"

subsection \<open>The view: which element dispatches which handler\<close>

text \<open>
  The handlers are reached through the rendered elements only. The door exists while
  \<open>!opened\<close>, that is \<open>stage === "door"\<close>, with \<open>onClick={onEnter}\<close>; the cake exists
  while \<open>stage === "cake"\<close>, with \<open>onClick={() => { if (lit) onBlow(); }}\<close>; the gift
  buttons exist while \<open>stage === "gifts"\<close>, button \<open>k\<close> with
  \<open>onClick={() => onOpenGift(g.id, g.message)}\<close> for the \<open>k\<close>-th gift of the memoised
  catalog; the modal's backdrop and button exist while \<open>open\<close>, with \<open>onClick={onClose}\<close>.
  An element counts as clickable exactly while its render condition holds (the exit
  animation that \<open>AnimatePresence\<close> plays on a removed door or modal is not part of the
  model), and every click is handled against the page as the previous event left it.
\<close>

definition Cake_onClick :: "(real \<Rightarrow> real) \<Rightarrow> page \<Rightarrow> page" where
  "Cake_onClick fl s = (if candlesLit s then perform fl s BlowCandles else s)"

datatype event = DoorClick | CakeClick | GiftClick nat | ModalClose | Wait nat | Timer nat

fun react :: "(real \<Rightarrow> real) \<Rightarrow> page \<Rightarrow> event \<Rightarrow> page option" where
  "react fl s DoorClick = (if stage s = door then Some (perform fl s Enter) else None)"
| "react fl s CakeClick = (if stage s = cake then Some (Cake_onClick fl s) else None)"
| "react fl s (GiftClick k) =
     (if stage s = gifts
      then (case giftsMemo s of
              None \<Rightarrow> None
            | Some gs \<Rightarrow>
                if k < length gs
                then Some (perform fl s (OpenGift (gift_id (gs ! k)) (message (gs ! k))))
                else None)
      else None)"
| "react fl s ModalClose = (if modalOpen s then Some (perform fl s CloseModal) else None)"
| "react fl s (Wait d) = Some (perform fl s (Elapse d))"
| "react fl s (Timer i) =
     (case find (\<lambda>t. tid t = i) (timers s) of
        None \<Rightarrow> None
      | Some t \<Rightarrow> if now s < due t then None else Some (perform fl s (TimerFires i)))"

fun view_run :: "(real \<Rightarrow> real) \<Rightarrow> page \<Rightarrow> event list \<Rightarrow> page option" where
  "view_run fl s [] = Some s"
| "view_run fl s (e # es) = (case react fl s e of None \<Rightarrow> None | Some s' \<Rightarrow> view_run fl s' es)"

subsection \<open>Notions used in the statements\<close>

text \<open>The pending timers that will move the page to the gifts stage, and the
  registered intervals of the placement engine.\<close>

definition gifts_timers :: "page \<Rightarrow> timer list" where
  "gifts_timers s = filter (\<lambda>t. cb t = SetStageGifts) (timers s)"

definition tick_timers :: "page \<Rightarrow> timer list" where
  "tick_timers s = filter (\<lambda>t. cb t = CakeAnimalsTick) (timers s)"

text \<open>Exact arithmetic, and a generator whose every draw is one half: the concrete
  host at which statements are instantiated.\<close>

definition exact :: "real \<Rightarrow> real" where
  "exact r = r"

definition half_draws :: "nat \<Rightarrow> real" where
  "half_draws n = 1 / 2"

text \<open>
  The invariant of the timer table. Timer ids are distinct and below the next id; every
  registered placement interval has period 4000; with \<open>CakeAnimals\<close> mounted exactly one
  is registered and its id is the one the cleanup of the effect holds, with
  \<open>CakeAnimals\<close> unmounted none is. \<open>timers_ok\<close> adds what a commit establishes: each
  child is mounted exactly while its render condition holds.
\<close>

definition timers_pre :: "page \<Rightarrow> bool" where
  "timers_pre s \<longleftrightarrow>
     distinct (map tid (timers s)) \<and> list_all (\<lambda>t. tid t < nextTimerId s) (timers s) \<and>
     list_all (\<lambda>t. period t = Some 4000) (tick_timers s) \<and>
     (case cakeAnimals s of
        None \<Rightarrow> tick_timers s = []
      | Some c \<Rightarrow> map (\<lambda>t. Some (tid t)) (tick_timers s) = [interval c])"

definition timers_ok :: "page \<Rightarrow> bool" where
  "timers_ok s \<longleftrightarrow> timers_pre s \<and> (cakeAnimals s = None) = (stage s \<noteq> cake)
      \<and> (giftsMemo s = None) = (stage s \<noteq> gifts)"

text \<open>
  The order of the stages and one step of it; what the catalog of a mounted \<open>Gifts\<close>
  looks like; and the invariant of the pages the view can reach: at the door the
  candles are lit, with lit candles no transition to the gifts stage is pending and
  the stage is not \<open>gifts\<close>, and every id that is opened, pending or on a gift button
  is an index of the catalog.
\<close>

fun stage_rank :: "Stage \<Rightarrow> nat" where
  "stage_rank door = 0"
| "stage_rank cake = 1"
| "stage_rank gifts = 2"

definition progresses :: "Stage \<Rightarrow> Stage \<Rightarrow> bool" where
  "progresses a b \<longleftrightarrow> a = b \<or> (a = door \<and> b = cake) \<or> (a = cake \<and> b = gifts)"

definition catalog_ok :: "Gift list \<Rightarrow> bool" where
  "catalog_ok gs \<longleftrightarrow> map gift_id gs = map int [0..<8]"

definition view_ok :: "page \<Rightarrow> bool" where
  "view_ok s \<longleftrightarrow>
     (stage s = door \<longrightarrow> candlesLit s) \<and>
     (candlesLit s \<longrightarrow> gifts_timers s = [] \<and> stage s \<noteq> gifts) \<and>
     (\<forall>i\<in>openedIds s. 0 \<le> i \<and> i < 8) \<and>
     (\<forall>i. pendingGiftId s = Some i \<longrightarrow> 0 \<le> i \<and> i < 8) \<and>
     (\<forall>gs. giftsMemo s = Some gs \<longrightarrow> catalog_ok gs)"

text \<open>
  A concrete session on the exact host, used to instantiate the statements: the door
  is clicked, the candles are blown out and 600 ms pass (\<open>scene_blown\<close>); then the
  pending timeout, which got id 2, fires (\<open>scene_gifts\<close>).
\<close>

definition scene_blown :: page where
  "scene_blown = calls exact (initial half_draws) [Enter, BlowCandles, Elapse 600]"

definition scene_gifts :: page where
  "scene_gifts = perform exact scene_blown (TimerFires 2)"

text \<open>
  \<open>not_before T\<close>: the page is not on the gifts stage before time \<open>T\<close>, no pending
  transition to it is due before \<open>T\<close>, and one scheduled from now on would not be either.
\<close>

definition not_before :: "nat \<Rightarrow> page \<Rightarrow> bool" where
  "not_before T s \<longleftrightarrow>
     (stage s = gifts \<longrightarrow> T \<le> now s) \<and>
     (\<forall>t\<in>set (gifts_timers s). T \<le> due t) \<and>
     T \<le> now s + 600"

text \<open>
  The host's numbers. \<open>rounding fl\<close>: the rounding is monotone and exact on the integers
  up to \<open>2^53\<close>. \<open>unit_draws rnd\<close>: every result of \<open>Math.random()\<close> lies in \<open>[0, 1)\<close>.
\<close>

definition rounding :: "(real \<Rightarrow> real) \<Rightarrow> bool" where
  "rounding fl \<longleftrightarrow> mono fl \<and> (\<forall>k::int. \<bar>k\<bar> \<le> 2 ^ 53 \<longrightarrow> fl (of_int k) = of_int k)"

definition unit_draws :: "(nat \<Rightarrow> real) \<Rightarrow> bool" where
  "unit_draws rnd \<longleftrightarrow> (\<forall>n. 0 \<le> rnd n \<and> rnd n < 1)"

text \<open>
  Entity \<open>i\<close> is within its zone when its position differs from anchor \<open>i\<close> by at most
  the jitter on each axis; \<open>placed\<close> says so of every entity of a position array, of
  at most six. Two anchors are \<open>apart\<close> when the largest displacement the jitter can
  give, the half-diagonal of its box, is less than half their distance (compared as
  squares). \<open>placed_ok\<close> is the invariant of the
  page: the generator stays in range and a mounted \<open>CakeAnimals\<close> holds placed positions,
  one for each entry.
\<close>

definition in_zone :: "nat \<Rightarrow> spot \<Rightarrow> bool" where
  "in_zone i p \<longleftrightarrow>
     \<bar>left_pc p - px (ZONES ! i)\<bar> \<le> px JITTER \<and> \<bar>top_pc p - py (ZONES ! i)\<bar> \<le> py JITTER"

definition placed :: "spot list \<Rightarrow> bool" where
  "placed sp \<longleftrightarrow> length sp \<le> length ZONES \<and> list_all (\<lambda>i. in_zone i (sp ! i)) [0..<length sp]"

definition apart :: "xy \<Rightarrow> xy \<Rightarrow> bool" where
  "apart a b \<longleftrightarrow> 4 * ((px JITTER)\<^sup>2 + (py JITTER)\<^sup>2) < (px a - px b)\<^sup>2 + (py a - py b)\<^sup>2"

fun pairwise_apart :: "xy list \<Rightarrow> bool" where
  "pairwise_apart [] = True"
| "pairwise_apart (z # zs) = (list_all (apart z) zs \<and> pairwise_apart zs)"

definition placed_ok :: "page \<Rightarrow> bool" where
  "placed_ok s \<longleftrightarrow>
     unit_draws (Math_random s) \<and>
     (case cakeAnimals s of
        None \<Rightarrow> True
      | Some c \<Rightarrow> placed (spots c) \<and> length (spots c) = length (entries cakeImages))"

section \<open>Properties\<close>

subsection \<open>What a re-render and a timer leave alone\<close>

lemmas host_defs = setTimeout_def setInterval_def clearInterval_def
  useInterval_effect_def useInterval_cleanup_def

lemmas mount_defs = CakeAnimals_mount_def CakeAnimals_unmount_def Gifts_mount_def

lemmas handler_defs = handleEnter_def handleBlowCandles_def handleOpenGift_def
  handleCloseModal_def

lemma commit_fields [simp]:
  "stage (commit fl s) = stage s"
  "candlesLit (commit fl s) = candlesLit s"
  "modalOpen (commit fl s) = modalOpen s"
  "modalMsg (commit fl s) = modalMsg s"
  "openedIds (commit fl s) = openedIds s"
  "showConfetti (commit fl s) = showConfetti s"
  "pendingGiftId (commit fl s) = pendingGiftId s"
  "now (commit fl s) = now s"
  by (simp_all add: commit_def mount_defs host_defs Let_def split: option.splits prod.splits)

lemma run_callback_fields [simp]:
  "candlesLit (run_callback fl f s) = candlesLit s"
  "modalOpen (run_callback fl f s) = modalOpen s"
  "modalMsg (run_callback fl f s) = modalMsg s"
  "openedIds (run_callback fl f s) = openedIds s"
  "pendingGiftId (run_callback fl f s) = pendingGiftId s"
  "now (run_callback fl f s) = now s"
  by (simp_all add: run_callback_def CakeAnimals_interval_def Let_def
      split: callback.splits option.splits)

lemma timer_fires_fields [simp]:
  "candlesLit (timer_fires fl i s) = candlesLit s"
  "modalOpen (timer_fires fl i s) = modalOpen s"
  "modalMsg (timer_fires fl i s) = modalMsg s"
  "openedIds (timer_fires fl i s) = openedIds s"
  "pendingGiftId (timer_fires fl i s) = pendingGiftId s"
  "now (timer_fires fl i s) = now s"
  by (simp_all add: timer_fires_def Let_def split: option.splits)

lemma initial_fields [simp]:
  "stage (initial rnd) = door"
  "candlesLit (initial rnd)"
  "\<not> modalOpen (initial rnd)"
  "openedIds (initial rnd) = {}"
  "pendingGiftId (initial rnd) = None"
  "cakeAnimals (initial rnd) = None"
  "giftsMemo (initial rnd) = None"
  "now (initial rnd) = 0"
  "nextTimerId (initial rnd) = 1"
  "timers (initial rnd) = [\<lparr>tid = 0, due = 5000, period = Some 5000, cb = ToggleConfetti\<rparr>]"
  "Math_random (initial rnd) = rnd"
  by (simp_all add: initial_def host_defs)

lemma calls_simps [simp]:
  "calls fl s [] = s"
  "calls fl s (c # cs) = calls fl (perform fl s c) cs"
  "calls fl s (cs @ ds) = calls fl (calls fl s cs) ds"
  by (simp_all add: calls_def)

lemma openedIds_perform_mono: "openedIds s \<subseteq> openedIds (perform fl s c)"
  by (cases c) (auto simp: handler_defs host_defs Let_def split: option.splits)

lemma openedIds_calls_mono: "openedIds s \<subseteq> openedIds (calls fl s cs)"
proof (induction cs arbitrary: s)
  case Nil
  show ?case by simp
next
  case (Cons c cs)
  have "openedIds s \<subseteq> openedIds (perform fl s c)"
    by (rule openedIds_perform_mono)
  also have "\<dots> \<subseteq> openedIds (calls fl (perform fl s c) cs)"
    by (rule Cons.IH)
  finally show ?case by simp
qed

subsection \<open>The modal and the opened gifts\<close>

text \<open>
  Claim C4. \<open>handleCloseModal\<close> closes the modal. With a pending gift id in the bridge
  variable it inserts that id into \<open>openedIds\<close> and clears the variable; with none
  pending it changes nothing but the open flag, so \<open>openedIds\<close> stays as it was. The
  handler is a total function with no failing branch: it returns a page in both cases.
\<close>

theorem closeModal_commits_pending:
  "\<not> modalOpen (handleCloseModal s)
   \<and> pendingGiftId (handleCloseModal s) = None
   \<and> openedIds (handleCloseModal (s\<lparr>pendingGiftId := Some i\<rparr>)) = insert i (openedIds s)
   \<and> handleCloseModal (s\<lparr>pendingGiftId := None\<rparr>) = s\<lparr>pendingGiftId := None, modalOpen := False\<rparr>
   \<and> openedIds (handleCloseModal (s\<lparr>pendingGiftId := None\<rparr>)) = openedIds s"
  by (simp add: handleCloseModal_def Let_def split: option.splits)

text \<open>
  Claim C5. For every gift id \<open>i\<close>, message \<open>m\<close> and page \<open>s\<close>, whether or not \<open>i\<close> is
  already in \<open>openedIds\<close>, \<open>handleOpenGift i m\<close> (and the re-render after it) leaves the
  modal open with message \<open>m\<close> and pending id \<open>i\<close>, and does not touch \<open>openedIds\<close>.
\<close>

theorem openGift_sets_modal:
  "modalOpen (perform fl s (OpenGift i m))
   \<and> modalMsg (perform fl s (OpenGift i m)) = m
   \<and> pendingGiftId (perform fl s (OpenGift i m)) = Some i
   \<and> openedIds (perform fl s (OpenGift i m)) = openedIds s
   \<and> handleOpenGift i m s = s\<lparr>modalMsg := m, modalOpen := True, pendingGiftId := Some i\<rparr>"
  by (simp add: handleOpenGift_def)

text \<open>
  Claim C6. A gift that is opened and then modal-closed is in \<open>openedIds\<close> and stays
  there under every later sequence of handler calls, elapsed time and timer firings;
  no operation ever removes an id; opening and closing the same gift a second time
  leaves the set as it was after the first time, and from a fresh page opening and
  closing gift 3 twice gives exactly the set \<open>{3}\<close>, of one element.
\<close>

theorem openedIds_monotone_idempotent:
  "isOpened (calls fl s ([OpenGift i m, CloseModal] @ cs)) i
   \<and> openedIds s \<subseteq> openedIds (calls fl s cs)
   \<and> openedIds (calls fl s [OpenGift i m, CloseModal, OpenGift i m', CloseModal])
       = openedIds (calls fl s [OpenGift i m, CloseModal])
   \<and> openedIds (calls fl (initial rnd) [OpenGift 3 m, CloseModal, OpenGift 3 m', CloseModal]) = {3}
   \<and> card (openedIds (calls fl (initial rnd) [OpenGift 3 m, CloseModal, OpenGift 3 m', CloseModal])) = 1"
proof -
  have "i \<in> openedIds (calls fl s [OpenGift i m, CloseModal])"
    by (simp add: handleOpenGift_def handleCloseModal_def Let_def)
  also have "\<dots> \<subseteq> openedIds (calls fl (calls fl s [OpenGift i m, CloseModal]) cs)"
    by (rule openedIds_calls_mono)
  finally have "isOpened (calls fl s ([OpenGift i m, CloseModal] @ cs)) i"
    by (simp add: isOpened_def)
  moreover have "openedIds s \<subseteq> openedIds (calls fl s cs)"
    by (rule openedIds_calls_mono)
  moreover have "openedIds (calls fl s [OpenGift i m, CloseModal, OpenGift i m', CloseModal])
       = openedIds (calls fl s [OpenGift i m, CloseModal])"
    by (simp add: handleOpenGift_def handleCloseModal_def Let_def)
  moreover have
    "openedIds (calls fl (initial rnd) [OpenGift 3 m, CloseModal, OpenGift 3 m', CloseModal]) = {3}"
    by (simp add: handleOpenGift_def handleCloseModal_def Let_def)
  ultimately show ?thesis by simp
qed

text \<open>
  Claim C10. Two calls of \<open>handleOpenGift\<close> with no \<open>handleCloseModal\<close> between them
  overwrite the bridge variable: the close that follows inserts the second id only,
  the first id is in the set afterwards only if it was there before or equals the
  second, and a further close inserts nothing.
\<close>

theorem pending_id_overwritten:
  "openedIds (calls fl s [OpenGift i m1, OpenGift j m2, CloseModal]) = insert j (openedIds s)
   \<and> pendingGiftId (calls fl s [OpenGift i m1, OpenGift j m2]) = Some j
   \<and> isOpened (calls fl s [OpenGift i m1, OpenGift j m2, CloseModal]) i = (i = j \<or> isOpened s i)
   \<and> openedIds (calls fl s [OpenGift i m1, OpenGift j m2, CloseModal, CloseModal])
       = insert j (openedIds s)"
  by (auto simp add: handleOpenGift_def handleCloseModal_def Let_def isOpened_def)

subsection \<open>The placement timer lives exactly as long as the cake stage\<close>

lemma only_tick_timer:
  assumes "filter (\<lambda>t. cb t = CakeAnimalsTick) ts = [z]"
  shows "filter (\<lambda>t. tid t \<noteq> tid z \<and> cb t = CakeAnimalsTick) ts = []"
proof -
  have "t = z" if "t \<in> set ts" "cb t = CakeAnimalsTick" for t
  proof -
    from that have "t \<in> set (filter (\<lambda>t. cb t = CakeAnimalsTick) ts)" by simp
    with assms show ?thesis by simp
  qed
  then show ?thesis by (auto simp: filter_empty_conv)
qed

lemma unmount_pre:
  assumes "timers_pre s"
  shows "timers_pre (CakeAnimals_unmount s)" and "cakeAnimals (CakeAnimals_unmount s) = None"
    and "stage (CakeAnimals_unmount s) = stage s" and "giftsMemo (CakeAnimals_unmount s) = giftsMemo s"
  using assms unfolding timers_pre_def CakeAnimals_unmount_def
  by (auto simp: host_defs tick_timers_def list_all_iff distinct_map_filter only_tick_timer
      split: option.splits)

lemma mount_pre:
  assumes "timers_pre s" and "cakeAnimals s = None"
  shows "timers_pre (CakeAnimals_mount fl images s)" and "cakeAnimals (CakeAnimals_mount fl images s) \<noteq> None"
    and "stage (CakeAnimals_mount fl images s) = stage s" and "giftsMemo (CakeAnimals_mount fl images s) = giftsMemo s"
  using assms unfolding timers_pre_def CakeAnimals_mount_def
  by (auto simp: host_defs tick_timers_def list_all_iff Let_def split: option.splits)

lemma commit_timers_ok:
  assumes "timers_pre s"
  shows "timers_ok (commit fl s)"
proof -
  define s1 where "s1 = (if stage s = cake
                then (if cakeAnimals s = None then CakeAnimals_mount fl cakeImages s else s)
                else CakeAnimals_unmount s)"
  have s1: "timers_pre s1" "(cakeAnimals s1 = None) = (stage s1 \<noteq> cake)" "stage s1 = stage s"
    using assms unmount_pre [OF assms] mount_pre [of s fl cakeImages]
    by (auto simp: s1_def)
  have c: "commit fl s = (if stage s1 = gifts
         then (if giftsMemo s1 = None then Gifts_mount fl s1 else s1)
         else s1\<lparr>giftsMemo := None\<rparr>)"
    by (simp add: commit_def s1_def Let_def)
  show ?thesis
    using s1 unfolding c timers_ok_def timers_pre_def
    by (auto simp: Gifts_mount_def tick_timers_def)
qed

lemma timers_ok_pre: "timers_ok s \<Longrightarrow> timers_pre s"
  by (simp add: timers_ok_def)

lemma handlers_pre:
  assumes "timers_pre s"
  shows "timers_pre (handleEnter s)" "timers_pre (handleBlowCandles s)"
    "timers_pre (handleOpenGift i m s)" "timers_pre (handleCloseModal s)"
  using assms unfolding timers_pre_def
  by (auto simp: handler_defs host_defs tick_timers_def list_all_iff Let_def split: option.splits)

lemma run_callback_pre:
  assumes "timers_pre s"
  shows "timers_pre (run_callback fl f s)"
  using assms unfolding timers_pre_def
  by (cases f) (auto simp: run_callback_def CakeAnimals_interval_def tick_timers_def Let_def
      split: option.splits)


lemma fired_timeout_pre:
  assumes "timers_pre s" and "find (\<lambda>t. tid t = i) (timers s) = Some t" and "period t = None"
  shows "timers_pre (s\<lparr>timers := filter (\<lambda>t'. tid t' \<noteq> i) (timers s)\<rparr>)"
proof -
  from assms(2) have t: "t \<in> set (timers s)" "tid t = i"
    by (auto simp: find_Some_iff in_set_conv_nth)
  have same: "t' = t" if "t' \<in> set (timers s)" "tid t' = i" for t'
    using that t assms(1) by (auto simp: timers_pre_def distinct_map inj_on_def)
  have "cb t' \<noteq> CakeAnimalsTick" if "t' \<in> set (timers s)" "tid t' = i" for t'
    using same [OF that] assms(1,3) t by (auto simp: timers_pre_def tick_timers_def list_all_iff)
  then have "filter (\<lambda>t. cb t = CakeAnimalsTick) (filter (\<lambda>t'. tid t' \<noteq> i) (timers s))
      = filter (\<lambda>t. cb t = CakeAnimalsTick) (timers s)"
    by (auto simp: filter_id_conv intro!: filter_cong)
  with assms(1) show ?thesis
    by (auto simp: timers_pre_def tick_timers_def list_all_iff distinct_map_filter
        split: option.splits)
qed

lemma fired_interval_pre:
  assumes "timers_pre s"
  shows "timers_pre (s\<lparr>timers := map (\<lambda>t'. if tid t' = i then t'\<lparr>due := d\<rparr> else t') (timers s)\<rparr>)"
proof -
  let ?f = "\<lambda>t'. if tid t' = i then t'\<lparr>due := d\<rparr> else t'"
  have a: "map tid (map ?f ts) = map tid ts" for ts :: "timer list"
    by (induction ts) auto
  have b: "filter (\<lambda>t. cb t = CakeAnimalsTick) (map ?f ts)
      = map ?f (filter (\<lambda>t. cb t = CakeAnimalsTick) ts)" for ts :: "timer list"
    by (induction ts) auto
  have c: "map (\<lambda>t. Some (tid t)) (map ?f ts) = map (\<lambda>t. Some (tid t)) ts" for ts :: "timer list"
    by (induction ts) auto
  from assms show ?thesis
    unfolding timers_pre_def tick_timers_def
    by (auto simp: a b c list_all_iff simp del: map_map split: option.splits)
qed

lemma timer_fires_ok:
  assumes "timers_ok s"
  shows "timers_ok (timer_fires fl i s)"
proof (cases "find (\<lambda>t. tid t = i) (timers s)")
  case None
  with assms show ?thesis by (simp add: timer_fires_def)
next
  case (Some t)
  note pre = timers_ok_pre [OF assms]
  show ?thesis
  proof (cases "now s < due t")
    case True
    with Some assms show ?thesis by (simp add: timer_fires_def)
  next
    case False
    show ?thesis
    proof (cases "period t")
      case None
      have "timers_ok (commit fl (run_callback fl (cb t)
              (s\<lparr>timers := filter (\<lambda>t'. tid t' \<noteq> i) (timers s)\<rparr>)))"
        by (intro commit_timers_ok run_callback_pre fired_timeout_pre [OF pre Some None])
      with Some False None show ?thesis by (simp add: timer_fires_def)
    next
      case (Some p)
      have "timers_ok (commit fl (run_callback fl (cb t)
              (s\<lparr>timers := map (\<lambda>t'. if tid t' = i then t'\<lparr>due := now s + p\<rparr> else t') (timers s)\<rparr>)))"
        by (intro commit_timers_ok run_callback_pre fired_interval_pre [OF pre])
      with \<open>find (\<lambda>t. tid t = i) (timers s) = Some t\<close> False Some show ?thesis
        by (simp add: timer_fires_def)
    qed
  qed
qed

lemma perform_ok:
  assumes "timers_ok s"
  shows "timers_ok (perform fl s c)"
proof (cases c)
  case (Elapse d)
  with assms show ?thesis
    by (auto simp: timers_ok_def timers_pre_def tick_timers_def split: option.splits)
next
  case (TimerFires i)
  with assms show ?thesis by (simp add: timer_fires_ok)
qed (use assms in \<open>simp_all add: commit_timers_ok handlers_pre timers_ok_pre\<close>)

lemma initial_ok: "timers_ok (initial rnd)"
  by (simp add: timers_ok_def timers_pre_def tick_timers_def)

lemma calls_ok: "timers_ok s \<Longrightarrow> timers_ok (calls fl s cs)"
  by (induction cs arbitrary: s) (simp_all add: perform_ok)

lemma reachable_ok: "timers_ok (calls fl (initial rnd) cs)"
  by (rule calls_ok [OF initial_ok])

lemma react_is_call:
  assumes "react fl s e = Some s'"
  shows "\<exists>cs. s' = calls fl s cs"
proof (cases e)
  case CakeClick
  with assms have "s' = calls fl s (if candlesLit s then [BlowCandles] else [])"
    by (auto simp: Cake_onClick_def split: if_splits)
  then show ?thesis ..
next
  case DoorClick
  with assms have "s' = calls fl s [Enter]" by (auto split: if_splits)
  then show ?thesis ..
next
  case (GiftClick k)
  with assms obtain j m where "s' = calls fl s [OpenGift j m]"
    by (auto split: if_splits option.splits)
  then show ?thesis ..
next
  case ModalClose
  with assms have "s' = calls fl s [CloseModal]" by (auto split: if_splits)
  then show ?thesis ..
next
  case (Wait d)
  with assms have "s' = calls fl s [Elapse d]" by auto
  then show ?thesis ..
next
  case (Timer i)
  with assms have "s' = calls fl s [TimerFires i]" by (auto split: if_splits option.splits)
  then show ?thesis ..
qed

lemma view_run_is_calls:
  assumes "view_run fl s es = Some s'"
  shows "\<exists>cs. s' = calls fl s cs"
  using assms
proof (induction es arbitrary: s)
  case Nil
  then have "s' = calls fl s []" by simp
  then show ?case ..
next
  case (Cons e es)
  then obtain s1 where s1: "react fl s e = Some s1" "view_run fl s1 es = Some s'"
    by (auto split: option.splits)
  from react_is_call [OF s1(1)] obtain cs where "s1 = calls fl s cs" ..
  moreover from Cons.IH [OF s1(2)] obtain ds where "s' = calls fl s1 ds" ..
  ultimately have "s' = calls fl s (cs @ ds)" by simp
  then show ?case ..
qed

text \<open>
  Claim C9. After every sequence of handler calls, elapsed time and timer firings
  from the fresh page, the placement interval of \<open>CakeAnimals\<close> is registered with the
  host exactly once while the stage is \<open>cake\<close> and not at all otherwise, its period is
  4000 ms, and the component with its positions is mounted exactly while the stage is
  \<open>cake\<close>. So once the stage has left \<open>cake\<close> the effect's cleanup has cleared the
  interval: however much time passes, no timer of the host carries the tick callback
  and there are no positions to change.
\<close>

theorem placement_timer_only_on_cake:
  "length (tick_timers (calls fl (initial rnd) cs))
     = (if stage (calls fl (initial rnd) cs) = cake then 1 else 0)
   \<and> list_all (\<lambda>t. period t = Some 4000) (tick_timers (calls fl (initial rnd) cs))
   \<and> (cakeAnimals (calls fl (initial rnd) cs) = None) = (stage (calls fl (initial rnd) cs) \<noteq> cake)"
proof -
  have "timers_ok (calls fl (initial rnd) cs)"
    by (rule reachable_ok)
  then show ?thesis
    unfolding timers_ok_def timers_pre_def
    by (cases "cakeAnimals (calls fl (initial rnd) cs)") (auto dest: arg_cong [where f = length])
qed

subsection \<open>Pages the view can reach\<close>

lemma length_GIFT_MESSAGES: "length GIFT_MESSAGES = 8"
  by (simp add: GIFT_MESSAGES_def)

lemma Gifts_useMemo_ids: "map gift_id (Gifts_useMemo fl rnd) = map int [0..<length GIFT_MESSAGES]"
proof -
  have "map gift_id (Gifts_useMemo fl rnd) = map (int \<circ> fst) (enumerate 0 GIFT_MESSAGES)"
    by (simp add: Gifts_useMemo_def case_prod_unfold comp_def)
  also have "\<dots> = map int (map fst (enumerate 0 GIFT_MESSAGES))"
    by (simp only: map_map)
  also have "\<dots> = map int [0..<length GIFT_MESSAGES]"
    by (simp only: map_fst_enumerate add_0)
  finally show ?thesis .
qed

lemma Gifts_useMemo_ok: "catalog_ok (Gifts_useMemo fl rnd)"
  unfolding catalog_ok_def Gifts_useMemo_ids length_GIFT_MESSAGES ..

lemma commit_giftsMemo:
  assumes "giftsMemo (commit fl s) = Some gs"
  shows "giftsMemo s = Some gs \<or> (\<exists>r. gs = Gifts_useMemo fl r)"
  using assms
  by (auto simp: commit_def mount_defs host_defs Let_def split: if_splits option.splits)

lemma gifts_timers_commit_subset: "set (gifts_timers (commit fl s)) \<subseteq> set (gifts_timers s)"
  by (auto simp: gifts_timers_def commit_def mount_defs host_defs Let_def split: option.splits)

lemma run_callback_giftsMemo [simp]: "giftsMemo (run_callback fl f s) = giftsMemo s"
  by (cases f) (simp_all add: run_callback_def CakeAnimals_interval_def Let_def split: option.splits)

lemma stage_timer_fires: "stage (timer_fires fl i s) = stage s \<or> stage (timer_fires fl i s) = gifts"
  by (auto simp: timer_fires_def run_callback_def CakeAnimals_interval_def Let_def
      split: option.splits callback.splits)

lemma stage_perform_door:
  assumes "stage (perform fl s c) = door"
  shows "stage s = door"
proof (cases c)
  case (TimerFires i)
  with assms stage_timer_fires [of fl i s] show ?thesis by auto
qed (use assms in \<open>auto simp: handler_defs host_defs Let_def split: option.splits\<close>)

lemma handleEnter_fields [simp]:
  "stage (handleEnter s) = cake"
  "candlesLit (handleEnter s) = candlesLit s"
  "modalOpen (handleEnter s) = modalOpen s"
  "modalMsg (handleEnter s) = modalMsg s"
  "openedIds (handleEnter s) = openedIds s"
  "pendingGiftId (handleEnter s) = pendingGiftId s"
  "now (handleEnter s) = now s"
  "timers (handleEnter s) = timers s"
  "nextTimerId (handleEnter s) = nextTimerId s"
  "cakeAnimals (handleEnter s) = cakeAnimals s"
  "giftsMemo (handleEnter s) = giftsMemo s"
  by (simp_all add: handleEnter_def)

lemma handleBlowCandles_fields [simp]:
  "stage (handleBlowCandles s) = stage s"
  "candlesLit (handleBlowCandles s) = False"
  "modalOpen (handleBlowCandles s) = modalOpen s"
  "modalMsg (handleBlowCandles s) = modalMsg s"
  "openedIds (handleBlowCandles s) = openedIds s"
  "pendingGiftId (handleBlowCandles s) = pendingGiftId s"
  "now (handleBlowCandles s) = now s"
  "timers (handleBlowCandles s) =
     timers s @ [\<lparr>tid = nextTimerId s, due = now s + 600, period = None, cb = SetStageGifts\<rparr>]"
  "nextTimerId (handleBlowCandles s) = Suc (nextTimerId s)"
  "cakeAnimals (handleBlowCandles s) = cakeAnimals s"
  "giftsMemo (handleBlowCandles s) = giftsMemo s"
  by (simp_all add: handleBlowCandles_def host_defs)

lemma handleOpenGift_fields [simp]:
  "stage (handleOpenGift i m s) = stage s"
  "candlesLit (handleOpenGift i m s) = candlesLit s"
  "modalOpen (handleOpenGift i m s) = True"
  "modalMsg (handleOpenGift i m s) = m"
  "openedIds (handleOpenGift i m s) = openedIds s"
  "pendingGiftId (handleOpenGift i m s) = Some i"
  "now (handleOpenGift i m s) = now s"
  "timers (handleOpenGift i m s) = timers s"
  "nextTimerId (handleOpenGift i m s) = nextTimerId s"
  "cakeAnimals (handleOpenGift i m s) = cakeAnimals s"
  "giftsMemo (handleOpenGift i m s) = giftsMemo s"
  by (simp_all add: handleOpenGift_def)

lemma handleCloseModal_fields [simp]:
  "stage (handleCloseModal s) = stage s"
  "candlesLit (handleCloseModal s) = candlesLit s"
  "modalOpen (handleCloseModal s) = False"
  "modalMsg (handleCloseModal s) = modalMsg s"
  "openedIds (handleCloseModal s)
     = (case pendingGiftId s of None \<Rightarrow> openedIds s | Some i \<Rightarrow> insert i (openedIds s))"
  "pendingGiftId (handleCloseModal s) = None"
  "now (handleCloseModal s) = now s"
  "timers (handleCloseModal s) = timers s"
  "nextTimerId (handleCloseModal s) = nextTimerId s"
  "cakeAnimals (handleCloseModal s) = cakeAnimals s"
  "giftsMemo (handleCloseModal s) = giftsMemo s"
  by (simp_all add: handleCloseModal_def Let_def split: option.splits)

lemma view_ok_initial: "view_ok (initial rnd)"
  by (simp add: view_ok_def gifts_timers_def)

lemma view_ok_commit:
  assumes "view_ok s"
  shows "view_ok (commit fl s)"
proof -
  have "catalog_ok gs" if "giftsMemo (commit fl s) = Some gs" for gs
    using commit_giftsMemo [OF that] assms by (auto simp: view_ok_def Gifts_useMemo_ok)
  moreover have "gifts_timers (commit fl s) = []" if "gifts_timers s = []"
    using gifts_timers_commit_subset [of fl s] that by simp
  ultimately show ?thesis
    using assms by (auto simp: view_ok_def)
qed

lemma view_ok_react:
  assumes "view_ok s" and "react fl s e = Some s'"
  shows "view_ok s'"
proof (cases e)
  case DoorClick
  with assms(2) have "s' = commit fl (handleEnter s)" "stage s = door"
    by (auto split: if_splits)
  moreover have "view_ok (handleEnter s)"
    using assms(1) \<open>stage s = door\<close> by (auto simp: view_ok_def handleEnter_def gifts_timers_def)
  ultimately show ?thesis by (simp add: view_ok_commit)
next
  case CakeClick
  show ?thesis
  proof (cases "candlesLit s")
    case True
    with CakeClick assms(2) have "s' = commit fl (handleBlowCandles s)" "stage s = cake"
      by (auto simp: Cake_onClick_def split: if_splits)
    moreover have "view_ok (handleBlowCandles s)"
      using assms(1) \<open>stage s = cake\<close>
      by (auto simp: view_ok_def handleBlowCandles_def host_defs gifts_timers_def)
    ultimately show ?thesis by (simp add: view_ok_commit)
  next
    case False
    with CakeClick assms show ?thesis by (auto simp: Cake_onClick_def split: if_splits)
  qed
next
  case (GiftClick k)
  with assms(2) obtain gs where g: "giftsMemo s = Some gs" "k < length gs"
    "s' = commit fl (handleOpenGift (gift_id (gs ! k)) (message (gs ! k)) s)"
    by (auto split: if_splits option.splits)
  from assms(1) g(1) have "catalog_ok gs" by (simp add: view_ok_def)
  then have "length gs = 8" "map gift_id gs ! k = map int [0..<8] ! k"
    by (auto simp: catalog_ok_def dest: arg_cong [where f = length])
  with g(2) have "gift_id (gs ! k) = int k" by simp
  with g(2) \<open>length gs = 8\<close> have "view_ok (handleOpenGift (gift_id (gs ! k)) (message (gs ! k)) s)"
    using assms(1) by (auto simp: view_ok_def handleOpenGift_def gifts_timers_def)
  with g(3) show ?thesis by (simp add: view_ok_commit)
next
  case ModalClose
  with assms(2) have "s' = commit fl (handleCloseModal s)" by (auto split: if_splits)
  moreover have "view_ok (handleCloseModal s)"
    using assms(1)
    by (auto simp: view_ok_def handleCloseModal_def Let_def gifts_timers_def split: option.splits)
  ultimately show ?thesis by (simp add: view_ok_commit)
next
  case (Wait d)
  with assms show ?thesis by (auto simp: view_ok_def gifts_timers_def)
next
  case (Timer i)
  with assms(2) obtain t where t: "find (\<lambda>t. tid t = i) (timers s) = Some t" "\<not> now s < due t"
    "s' = timer_fires fl i s"
    by (auto split: if_splits option.splits)
  define s1 where "s1 = (case period t of
                         None \<Rightarrow> s\<lparr>timers := filter (\<lambda>t'. tid t' \<noteq> i) (timers s)\<rparr>
                       | Some p \<Rightarrow>
                           s\<lparr>timers := map (\<lambda>t'. if tid t' = i then t'\<lparr>due := now s + p\<rparr> else t')
                                          (timers s)\<rparr>)"
  have s': "s' = commit fl (run_callback fl (cb t) s1)"
    using t by (simp add: timer_fires_def s1_def Let_def)
  have tin: "t \<in> set (timers s)"
    using t(1) by (auto simp: find_Some_iff in_set_conv_nth)
  have sub: "gifts_timers s = [] \<Longrightarrow> gifts_timers s1 = []"
    by (auto simp: s1_def gifts_timers_def filter_empty_conv split: option.splits)
  have same: "stage s1 = stage s" "candlesLit s1 = candlesLit s" "openedIds s1 = openedIds s"
    "pendingGiftId s1 = pendingGiftId s" "giftsMemo s1 = giftsMemo s"
    by (simp_all add: s1_def split: option.splits)
  have "view_ok (run_callback fl (cb t) s1)"
  proof (cases "cb t")
    case SetStageGifts
    then have "gifts_timers s \<noteq> []"
      using tin by (auto simp: gifts_timers_def filter_empty_conv)
    with assms(1) have "\<not> candlesLit s" by (auto simp: view_ok_def)
    with assms(1) same SetStageGifts show ?thesis
      by (auto simp: view_ok_def run_callback_def)
  next
    case ToggleConfetti
    with assms(1) same sub show ?thesis
      by (auto simp: view_ok_def run_callback_def gifts_timers_def)
  next
    case CakeAnimalsTick
    with assms(1) same sub show ?thesis
      by (auto simp: view_ok_def run_callback_def CakeAnimals_interval_def gifts_timers_def Let_def
          split: option.splits)
  qed
  with s' show ?thesis by (simp add: view_ok_commit)
qed

lemma view_ok_run:
  assumes "view_ok s" and "view_run fl s es = Some s'"
  shows "view_ok s'"
  using assms
  by (induction es arbitrary: s) (auto split: option.splits dest: view_ok_react)

lemma view_reachable_ok: "view_run fl (initial rnd) es = Some s \<Longrightarrow> view_ok s"
  by (rule view_ok_run [OF view_ok_initial])

lemma rank_react:
  assumes "react fl s e = Some s'"
  shows "stage_rank (stage s) \<le> stage_rank (stage s')"
proof (cases e)
  case (Timer i)
  with assms have "s' = timer_fires fl i s" by (auto split: option.splits if_splits)
  with stage_timer_fires [of fl i s] show ?thesis by (cases "stage s") auto
qed (use assms in \<open>auto simp: Cake_onClick_def split: if_splits option.splits\<close>)

lemma rank_view_run:
  assumes "view_run fl s es = Some s'"
  shows "stage_rank (stage s) \<le> stage_rank (stage s')"
  using assms
proof (induction es arbitrary: s)
  case Nil
  then show ?case by simp
next
  case (Cons e es)
  then obtain s1 where s1: "react fl s e = Some s1" "view_run fl s1 es = Some s'"
    by (auto split: option.splits)
  from rank_react [OF s1(1)] Cons.IH [OF s1(2)] show ?case by simp
qed

lemma progresses_react:
  assumes "view_ok s" and "react fl s e = Some s'"
  shows "progresses (stage s) (stage s')"
proof (cases e)
  case (Timer i)
  with assms(2) obtain t where t: "find (\<lambda>t. tid t = i) (timers s) = Some t" "\<not> now s < due t"
    "s' = timer_fires fl i s"
    by (auto split: if_splits option.splits)
  have tin: "t \<in> set (timers s)"
    using t(1) by (auto simp: find_Some_iff in_set_conv_nth)
  show ?thesis
  proof (cases "cb t = SetStageGifts")
    case True
    then have "gifts_timers s \<noteq> []"
      using tin by (auto simp: gifts_timers_def filter_empty_conv)
    with assms(1) have "stage s \<noteq> door" by (auto simp: view_ok_def)
    moreover have "stage s' = gifts"
      using t True by (simp add: timer_fires_def run_callback_def Let_def split: option.splits)
    ultimately show ?thesis by (cases "stage s") (auto simp: progresses_def)
  next
    case False
    then have "stage s' = stage s"
      using t by (cases "cb t") (auto simp: timer_fires_def run_callback_def CakeAnimals_interval_def
          Let_def split: option.splits)
    then show ?thesis by (simp add: progresses_def)
  qed
qed (use assms(2) in \<open>auto simp: progresses_def Cake_onClick_def split: if_splits option.splits\<close>)

lemma commit_stable:
  assumes "(cakeAnimals s = None) = (stage s \<noteq> cake)" and "(giftsMemo s = None) = (stage s \<noteq> gifts)"
  shows "commit fl s = s"
  using assms by (auto simp: commit_def CakeAnimals_unmount_def Let_def)

lemma perform_BlowCandles_ok:
  assumes "timers_ok s"
  shows "perform fl s BlowCandles = handleBlowCandles s"
  using assms by (auto simp: timers_ok_def handleBlowCandles_def host_defs intro!: commit_stable)

lemma fire_gifts_timer:
  assumes "find (\<lambda>t. tid t = i) (timers s) = Some t" and "due t \<le> now s" and "cb t = SetStageGifts"
  shows "stage (timer_fires fl i s) = gifts"
  using assms by (simp add: timer_fires_def run_callback_def Let_def split: option.splits)

lemma run_enter:
  "stage (perform fl (initial rnd) Enter) = cake"
  "now (perform fl (initial rnd) Enter) = 0"
  "timers (perform fl (initial rnd) Enter) =
     [\<lparr>tid = 0, due = 5000, period = Some 5000, cb = ToggleConfetti\<rparr>,
      \<lparr>tid = 1, due = 4000, period = Some 4000, cb = CakeAnimalsTick\<rparr>]"
  "nextTimerId (perform fl (initial rnd) Enter) = 2"
  "cakeAnimals (perform fl (initial rnd) Enter) =
     Some \<lparr>tick = 0, spots = new_spots fl (spots_length cakeImages) rnd, interval = Some 1\<rparr>"
  "giftsMemo (perform fl (initial rnd) Enter) = None"
  by (simp_all add: commit_def mount_defs host_defs handler_defs Let_def)

lemma run_blow:
  "stage (calls fl (initial rnd) [Enter, BlowCandles, Elapse 600]) = cake"
  "now (calls fl (initial rnd) [Enter, BlowCandles, Elapse 600]) = 600"
  "timers (calls fl (initial rnd) [Enter, BlowCandles, Elapse 600]) =
     [\<lparr>tid = 0, due = 5000, period = Some 5000, cb = ToggleConfetti\<rparr>,
      \<lparr>tid = 1, due = 4000, period = Some 4000, cb = CakeAnimalsTick\<rparr>,
      \<lparr>tid = 2, due = 600, period = None, cb = SetStageGifts\<rparr>]"
proof -
  have ok: "timers_ok (perform fl (initial rnd) Enter)"
    using reachable_ok [of fl rnd "[Enter]"] by simp
  have eq: "calls fl (initial rnd) [Enter, BlowCandles, Elapse 600]
      = (handleBlowCandles (perform fl (initial rnd) Enter))
          \<lparr>now := now (handleBlowCandles (perform fl (initial rnd) Enter)) + 600\<rparr>"
    by (simp only: calls_simps perform_BlowCandles_ok [OF ok] perform.simps(5))
  show "stage (calls fl (initial rnd) [Enter, BlowCandles, Elapse 600]) = cake"
    "now (calls fl (initial rnd) [Enter, BlowCandles, Elapse 600]) = 600"
    "timers (calls fl (initial rnd) [Enter, BlowCandles, Elapse 600]) =
     [\<lparr>tid = 0, due = 5000, period = Some 5000, cb = ToggleConfetti\<rparr>,
      \<lparr>tid = 1, due = 4000, period = Some 4000, cb = CakeAnimalsTick\<rparr>,
      \<lparr>tid = 2, due = 600, period = None, cb = SetStageGifts\<rparr>]"
    unfolding eq by (simp_all add: run_enter del: perform.simps)
qed

lemma run_gifts:
  "stage (calls fl (initial rnd) [Enter, BlowCandles, Elapse 600, TimerFires 2]) = gifts"
proof -
  have "calls fl (initial rnd) [Enter, BlowCandles, Elapse 600, TimerFires 2]
      = timer_fires fl 2 (calls fl (initial rnd) [Enter, BlowCandles, Elapse 600])"
    by simp
  moreover have "stage (timer_fires fl 2 (calls fl (initial rnd) [Enter, BlowCandles, Elapse 600])) = gifts"
    by (rule fire_gifts_timer [where t = "\<lparr>tid = 2, due = 600, period = None, cb = SetStageGifts\<rparr>"])
       (simp_all add: run_blow del: calls_simps)
  ultimately show ?thesis by (simp del: calls_simps)
qed

subsection \<open>A concrete session\<close>

lemma Gifts_useMemo_nth:
  assumes "k < length GIFT_MESSAGES"
  shows "Gifts_useMemo fl r ! k
     = \<lparr>gift_id = int k, hue = \<lfloor>rand fl (r k) 0 360\<rfloor>, message = GIFT_MESSAGES ! k\<rparr>"
  using assms by (simp add: Gifts_useMemo_def nth_enumerate_eq)

lemma length_Gifts_useMemo: "length (Gifts_useMemo fl r) = 8"
  by (simp add: Gifts_useMemo_def length_GIFT_MESSAGES)

lemma scene_blown_view:
  "view_run exact (initial half_draws) [DoorClick, CakeClick, Wait 600] = Some scene_blown"
  by (simp add: scene_blown_def Cake_onClick_def)

lemma scene_blown_fields:
  "stage scene_blown = cake"
  "now scene_blown = 600"
  "timers scene_blown =
     [\<lparr>tid = 0, due = 5000, period = Some 5000, cb = ToggleConfetti\<rparr>,
      \<lparr>tid = 1, due = 4000, period = Some 4000, cb = CakeAnimalsTick\<rparr>,
      \<lparr>tid = 2, due = 600, period = None, cb = SetStageGifts\<rparr>]"
  unfolding scene_blown_def by (rule run_blow)+

lemma scene_gifts_react: "react exact scene_blown (Timer 2) = Some scene_gifts"
  by (simp add: scene_blown_fields scene_gifts_def)

lemma view_run_append:
  "view_run fl s (es @ fs) = (case view_run fl s es of None \<Rightarrow> None | Some s' \<Rightarrow> view_run fl s' fs)"
  by (induction es arbitrary: s) (simp_all split: option.splits)

lemma view_run_snoc:
  assumes "view_run fl s es = Some s1" and "react fl s1 e = Some s2"
  shows "view_run fl s (es @ [e]) = Some s2"
  using assms by (simp add: view_run_append del: react.simps)

lemma scene_gifts_view:
  "view_run exact (initial half_draws) [DoorClick, CakeClick, Wait 600, Timer 2] = Some scene_gifts"
  using view_run_snoc [OF scene_blown_view scene_gifts_react] by simp

lemma scene_gifts_fields:
  "stage scene_gifts = gifts"
  "openedIds scene_gifts = {}"
  "pendingGiftId scene_gifts = None"
  "\<exists>r. giftsMemo scene_gifts = Some (Gifts_useMemo exact r)"
proof -
  show "stage scene_gifts = gifts"
    unfolding scene_gifts_def scene_blown_def using run_gifts [of exact half_draws] by simp
  show "openedIds scene_gifts = {}" "pendingGiftId scene_gifts = None"
    by (simp_all add: scene_gifts_def scene_blown_def)
  have ok: "timers_ok scene_blown" "timers_ok scene_gifts"
    unfolding scene_gifts_def scene_blown_def
    by (intro perform_ok reachable_ok)+
  from ok(1) have "giftsMemo scene_blown = None"
    by (simp add: timers_ok_def scene_blown_fields)
  moreover from ok(2) \<open>stage scene_gifts = gifts\<close> obtain gs where gs: "giftsMemo scene_gifts = Some gs"
    by (auto simp: timers_ok_def)
  moreover have "scene_gifts = commit exact (run_callback exact SetStageGifts
        (scene_blown\<lparr>timers := filter (\<lambda>t'. tid t' \<noteq> 2) (timers scene_blown)\<rparr>))"
    by (simp add: scene_gifts_def timer_fires_def scene_blown_fields Let_def)
  ultimately show "\<exists>r. giftsMemo scene_gifts = Some (Gifts_useMemo exact r)"
    using commit_giftsMemo [of exact "run_callback exact SetStageGifts
        (scene_blown\<lparr>timers := filter (\<lambda>t'. tid t' \<noteq> 2) (timers scene_blown)\<rparr>)" gs]
    by auto
qed

subsection \<open>The stage\<close>

text \<open>
  Claim C1 as stated fails for the handler: \<open>handleEnter\<close> has no guard and sets the stage
  to \<open>cake\<close> whatever it was. In the session that has reached the gifts stage, one
  more call of it moves the stage back from \<open>gifts\<close> to \<open>cake\<close>.
\<close>

theorem enter_regresses_stage:
  "stage scene_gifts = gifts \<and> stage (handleEnter scene_gifts) = cake
   \<and> stage (perform exact scene_gifts Enter) = cake"
  by (simp add: scene_gifts_fields)

text \<open>
  Claim C1, amended. Along every sequence of events of the view from the fresh page
  (a click on the door while it is rendered, on the cake, on a gift button, on the
  modal, time passing, a due timer firing) the stage never regresses, and each single
  event leaves the stage where it is or moves it from \<open>door\<close> to \<open>cake\<close> or from \<open>cake\<close>
  to \<open>gifts\<close>. What keeps \<open>handleEnter\<close> from moving the stage back is the view, which
  renders the door only while the stage is \<open>door\<close>; the handler itself sets the stage
  to \<open>cake\<close> from any stage.
\<close>

theorem stage_progresses_under_view:
  assumes "view_run fl (initial rnd) es = Some s"
  shows "(view_run fl s es' = Some s' \<longrightarrow> stage_rank (stage s) \<le> stage_rank (stage s'))
       \<and> (react fl s e = Some s'' \<longrightarrow> progresses (stage s) (stage s''))
       \<and> stage (perform fl s Enter) = cake"
  using view_reachable_ok [OF assms]
  by (auto dest: rank_view_run progresses_react)

text \<open>The statement at the concrete session: the timeout firing after the blow moves
  the stage from \<open>cake\<close> to \<open>gifts\<close>.\<close>

theorem stage_progresses_under_view_witness:
  "view_run exact (initial half_draws) [DoorClick, CakeClick, Wait 600] = Some scene_blown
   \<and> view_run exact scene_blown [Timer 2] = Some scene_gifts
   \<and> react exact scene_blown (Timer 2) = Some scene_gifts
   \<and> stage scene_blown = cake \<and> stage scene_gifts = gifts
   \<and> stage_rank (stage scene_blown) \<le> stage_rank (stage scene_gifts)
   \<and> progresses (stage scene_blown) (stage scene_gifts)"
proof -
  have v: "view_run exact scene_blown [Timer 2] = Some scene_gifts"
    using scene_gifts_react by (simp del: react.simps)
  from stage_progresses_under_view [OF scene_blown_view, of "[Timer 2]" scene_gifts "Timer 2" scene_gifts]
    v scene_gifts_react scene_blown_view
  show ?thesis by (simp add: scene_blown_fields scene_gifts_fields del: react.simps view_run.simps)
qed

subsection \<open>Gift ids out of the catalog\<close>

text \<open>
  Claim C7 as stated fails for the handlers: none of them compares an id with the size
  of the catalog. On the gifts stage, \<open>handleOpenGift\<close> with id 99 followed by
  \<open>handleCloseModal\<close> records 99 as opened.
\<close>

theorem out_of_range_id_is_inserted:
  "isOpened (calls exact scene_gifts [OpenGift 99 ''x'', CloseModal]) 99"
  by (simp add: isOpened_def)

text \<open>
  Claim C7, amended. The handlers accept any id: \<open>handleOpenGift\<close> followed by
  \<open>handleCloseModal\<close> inserts the id it was given, in the catalog or not, and neither
  can fail. An id outside \<open>[0, 8)\<close> is kept out by the view alone: \<open>Gifts\<close> calls
  \<open>onOpenGift\<close> only with the id of one of the eight gifts of its catalog, so along
  every sequence of view events from the fresh page every opened id and every pending
  id lies in \<open>[0, 8)\<close>.
\<close>

theorem ids_in_range_by_view_only:
  "openedIds (calls fl s [OpenGift i m, CloseModal]) = insert i (openedIds s)
   \<and> (view_run fl (initial rnd) es = Some s' \<longrightarrow>
        (\<forall>j\<in>openedIds s'. 0 \<le> j \<and> j < 8) \<and> (\<forall>j. pendingGiftId s' = Some j \<longrightarrow> 0 \<le> j \<and> j < 8))"
proof -
  have "openedIds (calls fl s [OpenGift i m, CloseModal]) = insert i (openedIds s)"
    by simp
  moreover have "(\<forall>j\<in>openedIds s'. 0 \<le> j \<and> j < 8) \<and> (\<forall>j. pendingGiftId s' = Some j \<longrightarrow> 0 \<le> j \<and> j < 8)"
    if "view_run fl (initial rnd) es = Some s'"
    using view_reachable_ok [OF that] by (simp add: view_ok_def)
  ultimately show ?thesis by blast
qed

text \<open>The statement at the concrete session: the sixth gift button is clicked and the
  modal closed, and exactly id 5 is opened.\<close>

theorem ids_in_range_by_view_only_witness:
  "view_run exact (initial half_draws) [DoorClick, CakeClick, Wait 600, Timer 2, GiftClick 5, ModalClose]
     = Some (calls exact scene_gifts [OpenGift 5 (GIFT_MESSAGES ! 5), CloseModal])
   \<and> openedIds (calls exact scene_gifts [OpenGift 5 (GIFT_MESSAGES ! 5), CloseModal]) = {5}
   \<and> 0 \<le> Min (openedIds (calls exact scene_gifts [OpenGift 5 (GIFT_MESSAGES ! 5), CloseModal]))
   \<and> Max (openedIds (calls exact scene_gifts [OpenGift 5 (GIFT_MESSAGES ! 5), CloseModal])) < 8"
proof -
  let ?s5 = "perform exact scene_gifts (OpenGift 5 (GIFT_MESSAGES ! 5))"
  let ?s6 = "calls exact scene_gifts [OpenGift 5 (GIFT_MESSAGES ! 5), CloseModal]"
  from scene_gifts_fields(4) obtain r where r: "giftsMemo scene_gifts = Some (Gifts_useMemo exact r)" ..
  have "react exact scene_gifts (GiftClick 5) = Some ?s5"
    by (simp add: scene_gifts_fields r length_Gifts_useMemo Gifts_useMemo_nth length_GIFT_MESSAGES
        del: perform.simps)
  from view_run_snoc [OF scene_gifts_view this]
  have v5: "view_run exact (initial half_draws) [DoorClick, CakeClick, Wait 600, Timer 2, GiftClick 5]
      = Some ?s5"
    by simp
  have "react exact ?s5 ModalClose = Some (perform exact ?s5 CloseModal)"
    by simp
  from view_run_snoc [OF v5 this]
  have v6: "view_run exact (initial half_draws)
      [DoorClick, CakeClick, Wait 600, Timer 2, GiftClick 5, ModalClose] = Some ?s6"
    by (simp del: perform.simps)
  have o: "openedIds ?s6 = {5}"
    by (simp add: scene_gifts_fields)
  from ids_in_range_by_view_only [of exact scene_gifts 5 "GIFT_MESSAGES ! 5" half_draws
      "[DoorClick, CakeClick, Wait 600, Timer 2, GiftClick 5, ModalClose]" ?s6] v6 o
  show ?thesis by (simp del: calls_simps perform.simps view_run.simps)
qed

subsection \<open>Blowing out the candles\<close>

lemma not_before_commit:
  assumes "not_before T s"
  shows "not_before T (commit fl s)"
  using assms gifts_timers_commit_subset [of fl s] by (auto simp: not_before_def)

lemma found_timer:
  assumes "find (\<lambda>t. tid t = i) ts = Some t"
  shows "t \<in> set ts" and "tid t = i"
  using assms by (auto simp: find_Some_iff in_set_conv_nth)

lemma not_before_timer_fires:
  assumes "not_before T s" and "timers_ok s"
  shows "not_before T (timer_fires fl i s)"
proof (cases "find (\<lambda>t. tid t = i) (timers s)")
  case None
  with assms show ?thesis by (simp add: timer_fires_def)
next
  case (Some t)
  note t = found_timer [OF Some]
  show ?thesis
  proof (cases "now s < due t")
    case True
    with Some assms show ?thesis by (simp add: timer_fires_def)
  next
    case False
    define s1 where "s1 = (case period t of
                         None \<Rightarrow> s\<lparr>timers := filter (\<lambda>t'. tid t' \<noteq> i) (timers s)\<rparr>
                       | Some p \<Rightarrow>
                           s\<lparr>timers := map (\<lambda>t'. if tid t' = i then t'\<lparr>due := now s + p\<rparr> else t')
                                          (timers s)\<rparr>)"
    have eq: "timer_fires fl i s = commit fl (run_callback fl (cb t) s1)"
      using Some False by (simp add: timer_fires_def s1_def Let_def)
    have same: "t' = t" if "t' \<in> set (timers s)" "tid t' = i" for t'
      using that t assms(2) by (auto simp: timers_ok_def timers_pre_def distinct_map inj_on_def)
    have fields: "stage s1 = stage s" "now s1 = now s"
      by (simp_all add: s1_def split: option.splits)
    have late: "T \<le> now s" if "cb t = SetStageGifts"
    proof -
      from that t(1) have "t \<in> set (gifts_timers s)" by (simp add: gifts_timers_def)
      with assms(1) have "T \<le> due t" by (simp add: not_before_def)
      with False show ?thesis by simp
    qed
    have due1: "T \<le> due t'" if "t' \<in> set (gifts_timers s1)" for t'
    proof (cases "period t")
      case None
      with that have "t' \<in> set (gifts_timers s)" by (auto simp: s1_def gifts_timers_def)
      with assms(1) show ?thesis by (simp add: not_before_def)
    next
      case (Some p)
      with that obtain t0 where t0: "t0 \<in> set (timers s)" "cb t' = SetStageGifts"
        "t' = (if tid t0 = i then t0\<lparr>due := now s + p\<rparr> else t0)"
        by (auto simp: s1_def gifts_timers_def)
      show ?thesis
      proof (cases "tid t0 = i")
        case True
        with same t0(1) have "t0 = t" by simp
        with t0 True have "cb t = SetStageGifts" "due t' = now s + p" by simp_all
        with late show ?thesis by simp
      next
        case False
        with t0 have "t' \<in> set (gifts_timers s)" by (simp add: gifts_timers_def)
        with assms(1) show ?thesis by (simp add: not_before_def)
      qed
    qed
    have "not_before T (run_callback fl (cb t) s1)"
    proof (cases "cb t")
      case SetStageGifts
      with late due1 assms(1) fields show ?thesis
        by (auto simp: not_before_def run_callback_def gifts_timers_def)
    next
      case ToggleConfetti
      with due1 assms(1) fields show ?thesis
        by (auto simp: not_before_def run_callback_def gifts_timers_def)
    next
      case CakeAnimalsTick
      with due1 assms(1) fields show ?thesis
        by (auto simp: not_before_def run_callback_def CakeAnimals_interval_def gifts_timers_def
            Let_def split: option.splits)
    qed
    then show ?thesis unfolding eq by (rule not_before_commit)
  qed
qed

lemma not_before_perform:
  assumes "not_before T s" and "timers_ok s"
  shows "not_before T (perform fl s c)"
proof (cases c)
  case Enter
  have "not_before T (handleEnter s)"
    using assms(1) by (auto simp: not_before_def gifts_timers_def)
  with Enter show ?thesis by (simp add: not_before_commit)
next
  case BlowCandles
  have "not_before T (handleBlowCandles s)"
    using assms(1) by (auto simp: not_before_def gifts_timers_def)
  with BlowCandles show ?thesis by (simp add: not_before_commit)
next
  case (OpenGift i m)
  have "not_before T (handleOpenGift i m s)"
    using assms(1) by (auto simp: not_before_def gifts_timers_def)
  with OpenGift show ?thesis by (simp add: not_before_commit)
next
  case CloseModal
  have "not_before T (handleCloseModal s)"
    using assms(1) by (auto simp: not_before_def gifts_timers_def)
  with CloseModal show ?thesis by (simp add: not_before_commit)
next
  case (Elapse d)
  with assms(1) show ?thesis by (auto simp: not_before_def gifts_timers_def)
next
  case (TimerFires i)
  with assms show ?thesis by (simp add: not_before_timer_fires)
qed

lemma not_before_calls:
  assumes "not_before T s" and "timers_ok s"
  shows "not_before T (calls fl s cs)"
  using assms
  by (induction cs arbitrary: s) (simp_all add: not_before_perform perform_ok del: perform.simps)

lemma find_fresh_last:
  assumes "\<forall>t\<in>set ts. tid t < n" and "tid t = n"
  shows "find (\<lambda>t'. tid t' = n) (ts @ [t]) = Some t"
  using assms by (induction ts) auto

lemma view_reachable_timers_ok:
  assumes "view_run fl (initial rnd) es = Some s"
  shows "timers_ok s"
proof -
  from view_run_is_calls [OF assms] obtain cs where "s = calls fl (initial rnd) cs" ..
  then show ?thesis by (simp add: reachable_ok)
qed

text \<open>
  Claim C3. On a page the view can reach, with the stage \<open>cake\<close> and the candles lit,
  \<open>handleBlowCandles\<close> (and the re-render after it) puts the candles out at once and
  leaves the stage at \<open>cake\<close>; the one pending transition to the gifts stage is the
  timeout it has just scheduled, due 600 ms later. Whatever happens next - handler
  calls, time passing, timers firing - the stage is \<open>gifts\<close> only at a time at least
  600 ms after the call; and once 600 ms have passed and the timeout fires, the stage
  is \<open>gifts\<close>.
\<close>

theorem blow_then_delay_then_gifts:
  assumes "view_run fl (initial rnd) es = Some s" and "stage s = cake" and "candlesLit s"
  shows "\<not> candlesLit (perform fl s BlowCandles)
       \<and> stage (perform fl s BlowCandles) = cake
       \<and> gifts_timers (perform fl s BlowCandles)
           = [\<lparr>tid = nextTimerId s, due = now s + 600, period = None, cb = SetStageGifts\<rparr>]
       \<and> (stage (calls fl (perform fl s BlowCandles) cs) = gifts
            \<longrightarrow> now s + 600 \<le> now (calls fl (perform fl s BlowCandles) cs))
       \<and> stage (calls fl (perform fl s BlowCandles) [Elapse 600, TimerFires (nextTimerId s)]) = gifts"
proof -
  let ?new = "\<lparr>tid = nextTimerId s, due = now s + 600, period = None, cb = SetStageGifts\<rparr>"
  let ?s' = "perform fl s BlowCandles"
  note ok = view_reachable_timers_ok [OF assms(1)]
  have eq: "?s' = handleBlowCandles s" by (rule perform_BlowCandles_ok [OF ok])
  have none: "gifts_timers s = []"
    using view_reachable_ok [OF assms(1)] assms(3) by (simp add: view_ok_def)
  have gt: "gifts_timers ?s' = [?new]"
    unfolding eq using none by (simp add: gifts_timers_def)
  have ok': "timers_ok ?s'" by (rule perform_ok [OF ok])
  have "not_before (now s + 600) ?s'"
    unfolding eq using gt [unfolded eq] assms(2) by (simp add: not_before_def)
  from not_before_calls [OF this ok']
  have safe: "stage (calls fl ?s' cs) = gifts \<longrightarrow> now s + 600 \<le> now (calls fl ?s' cs)"
    by (simp add: not_before_def)
  have "\<forall>t\<in>set (timers s). tid t < nextTimerId s"
    using ok by (simp add: timers_ok_def timers_pre_def list_all_iff)
  then have "find (\<lambda>t'. tid t' = nextTimerId s) (timers s @ [?new]) = Some ?new"
    by (rule find_fresh_last) simp
  then have "stage (timer_fires fl (nextTimerId s) ((handleBlowCandles s)\<lparr>now := now s + 600\<rparr>)) = gifts"
    by (intro fire_gifts_timer [where t = ?new]) simp_all
  then have live: "stage (calls fl ?s' [Elapse 600, TimerFires (nextTimerId s)]) = gifts"
    by (simp add: eq del: perform.simps(2))
  from eq gt safe live assms(2) show ?thesis by simp
qed

text \<open>The statement at the page reached by the click on the door.\<close>

theorem blow_then_delay_then_gifts_witness:
  "view_run exact (initial half_draws) [DoorClick] = Some (perform exact (initial half_draws) Enter)
   \<and> stage (perform exact (initial half_draws) Enter) = cake
   \<and> candlesLit (perform exact (initial half_draws) Enter)
   \<and> \<not> candlesLit (calls exact (initial half_draws) [Enter, BlowCandles])
   \<and> stage (calls exact (initial half_draws) [Enter, BlowCandles]) = cake
   \<and> stage (calls exact (initial half_draws) [Enter, BlowCandles, Elapse 600, TimerFires 2]) = gifts"
proof -
  have v: "view_run exact (initial half_draws) [DoorClick] = Some (perform exact (initial half_draws) Enter)"
    by simp
  have c: "stage (perform exact (initial half_draws) Enter) = cake"
    "candlesLit (perform exact (initial half_draws) Enter)"
    by simp_all
  from blow_then_delay_then_gifts [OF v c, of "[]"] c
  show ?thesis by (simp add: run_enter del: perform.simps)
qed

lemma handleBlowCandles_unguarded:
  "gifts_timers (handleBlowCandles (handleBlowCandles s))
     = gifts_timers s
       @ [\<lparr>tid = nextTimerId s, due = now s + 600, period = None, cb = SetStageGifts\<rparr>,
          \<lparr>tid = Suc (nextTimerId s), due = now s + 600, period = None, cb = SetStageGifts\<rparr>]"
  by (simp add: gifts_timers_def)

text \<open>
  Claim C2 as stated fails for the handler: \<open>handleBlowCandles\<close> has no guard. Called
  on \<open>scene_blown\<close>, where the candles are already out and one transition is pending, it
  is not a no-op: it schedules a second transition. Called twice in a row on the page
  reached by the click on the door, it leaves two pending transitions.
\<close>

theorem blowCandles_unlit_schedules_again:
  "\<not> candlesLit scene_blown
   \<and> length (gifts_timers scene_blown) = 1
   \<and> length (gifts_timers (perform exact scene_blown BlowCandles)) = 2
   \<and> perform exact scene_blown BlowCandles \<noteq> scene_blown
   \<and> candlesLit (perform exact (initial half_draws) Enter)
   \<and> length (gifts_timers (calls exact (perform exact (initial half_draws) Enter)
         [BlowCandles, BlowCandles])) = 2"
proof -
  have ok: "timers_ok scene_blown" "timers_ok (perform exact (initial half_draws) Enter)"
    "timers_ok (perform exact (perform exact (initial half_draws) Enter) BlowCandles)"
    unfolding scene_blown_def by (intro perform_ok reachable_ok initial_ok)+
  have unlit: "\<not> candlesLit scene_blown"
    by (simp add: scene_blown_def)
  have one: "length (gifts_timers scene_blown) = 1"
    by (simp add: gifts_timers_def scene_blown_fields)
  have two: "length (gifts_timers (perform exact scene_blown BlowCandles)) = 2"
    unfolding perform_BlowCandles_ok [OF ok(1)]
    by (simp add: gifts_timers_def scene_blown_fields)
  from one two have changed: "perform exact scene_blown BlowCandles \<noteq> scene_blown"
    by auto
  have lit: "candlesLit (perform exact (initial half_draws) Enter)"
    by simp
  have "calls exact (perform exact (initial half_draws) Enter) [BlowCandles, BlowCandles]
      = handleBlowCandles (handleBlowCandles (perform exact (initial half_draws) Enter))"
    using perform_BlowCandles_ok [OF ok(3)]
    by (simp only: calls_simps perform_BlowCandles_ok [OF ok(2)])
  then have twice: "length (gifts_timers (calls exact (perform exact (initial half_draws) Enter)
         [BlowCandles, BlowCandles])) = 2"
    by (simp add: handleBlowCandles_unguarded gifts_timers_def run_enter del: perform.simps calls_simps)
  from unlit one two changed lit twice show ?thesis by blast
qed

text \<open>
  Claim C2, amended. The exactly-once guard is in the click handler of the cake,
  \<open>if (lit) onBlow()\<close>, evaluated against the candle flag of the latest render. On every
  page the view can reach, with a re-render after each click: a click with the candles
  out changes nothing; after a click the candles are out; a second click right after
  the first changes nothing; and two clicks in a row on lit candles leave exactly one
  pending transition to the gifts stage, the timeout of the first click.
  \<open>handleBlowCandles\<close> itself puts the candles out and schedules a transition every time
  it is called, lit or not: one call adds one timeout, two calls add two.
\<close>

theorem cake_click_exactly_once:
  assumes "view_run fl (initial rnd) es = Some s"
  shows "(\<not> candlesLit s \<longrightarrow> Cake_onClick fl s = s)
       \<and> \<not> candlesLit (Cake_onClick fl s)
       \<and> Cake_onClick fl (Cake_onClick fl s) = Cake_onClick fl s
       \<and> (candlesLit s \<longrightarrow>
            gifts_timers (Cake_onClick fl (Cake_onClick fl s))
              = [\<lparr>tid = nextTimerId s, due = now s + 600, period = None, cb = SetStageGifts\<rparr>])
       \<and> \<not> candlesLit (perform fl s BlowCandles)
       \<and> gifts_timers (perform fl s BlowCandles)
           = gifts_timers s
             @ [\<lparr>tid = nextTimerId s, due = now s + 600, period = None, cb = SetStageGifts\<rparr>]
       \<and> gifts_timers (calls fl s [BlowCandles, BlowCandles])
           = gifts_timers s
             @ [\<lparr>tid = nextTimerId s, due = now s + 600, period = None, cb = SetStageGifts\<rparr>,
                \<lparr>tid = Suc (nextTimerId s), due = now s + 600, period = None, cb = SetStageGifts\<rparr>]"
proof -
  have ok: "timers_ok s"
  proof -
    from view_run_is_calls [OF assms] obtain cs where "s = calls fl (initial rnd) cs" ..
    then show ?thesis by (simp add: reachable_ok)
  qed
  have unlit: "\<not> candlesLit (Cake_onClick fl s)"
    by (simp add: Cake_onClick_def)
  then have twice: "Cake_onClick fl (Cake_onClick fl s) = Cake_onClick fl s"
    by (subst Cake_onClick_def [of fl "Cake_onClick fl s"]) simp
  have once: "gifts_timers (Cake_onClick fl s)
      = [\<lparr>tid = nextTimerId s, due = now s + 600, period = None, cb = SetStageGifts\<rparr>]"
    if "candlesLit s"
  proof -
    from view_reachable_ok [OF assms] that have "gifts_timers s = []"
      by (simp add: view_ok_def)
    moreover have "Cake_onClick fl s = handleBlowCandles s"
      using that perform_BlowCandles_ok [OF ok] by (simp add: Cake_onClick_def del: perform.simps)
    ultimately show ?thesis by (simp add: gifts_timers_def)
  qed
  have h1: "perform fl s BlowCandles = handleBlowCandles s"
    by (rule perform_BlowCandles_ok [OF ok])
  have "timers_ok (perform fl s BlowCandles)"
    by (rule perform_ok [OF ok])
  then have h2: "calls fl s [BlowCandles, BlowCandles] = handleBlowCandles (handleBlowCandles s)"
    using perform_BlowCandles_ok [of "perform fl s BlowCandles" fl]
    by (simp only: calls_simps h1)
  have a: "\<not> candlesLit (perform fl s BlowCandles)"
    unfolding h1 by simp
  have b: "gifts_timers (perform fl s BlowCandles)
           = gifts_timers s
             @ [\<lparr>tid = nextTimerId s, due = now s + 600, period = None, cb = SetStageGifts\<rparr>]"
    unfolding h1 by (simp add: gifts_timers_def)
  have c: "gifts_timers (calls fl s [BlowCandles, BlowCandles])
           = gifts_timers s
             @ [\<lparr>tid = nextTimerId s, due = now s + 600, period = None, cb = SetStageGifts\<rparr>,
                \<lparr>tid = Suc (nextTimerId s), due = now s + 600, period = None, cb = SetStageGifts\<rparr>]"
    unfolding h2 by (rule handleBlowCandles_unguarded)
  have d: "(\<not> candlesLit s \<longrightarrow> Cake_onClick fl s = s)"
    by (simp add: Cake_onClick_def)
  from once twice have e: "candlesLit s \<longrightarrow>
            gifts_timers (Cake_onClick fl (Cake_onClick fl s))
              = [\<lparr>tid = nextTimerId s, due = now s + 600, period = None, cb = SetStageGifts\<rparr>]"
    by simp
  from d unlit twice e a b c show ?thesis by blast
qed

text \<open>The statement at the page reached by the click on the door, where the candles
  are lit, and at \<open>scene_blown\<close>, where they are out.\<close>

theorem cake_click_exactly_once_witness:
  "candlesLit (perform exact (initial half_draws) Enter)
   \<and> gifts_timers (Cake_onClick exact (Cake_onClick exact (perform exact (initial half_draws) Enter)))
       = [\<lparr>tid = 2, due = 600, period = None, cb = SetStageGifts\<rparr>]
   \<and> \<not> candlesLit (Cake_onClick exact (Cake_onClick exact (perform exact (initial half_draws) Enter)))
   \<and> \<not> candlesLit scene_blown
   \<and> Cake_onClick exact scene_blown = scene_blown"
proof -
  have v: "view_run exact (initial half_draws) [DoorClick] = Some (perform exact (initial half_draws) Enter)"
    by simp
  have lit: "candlesLit (perform exact (initial half_draws) Enter)"
    by simp
  have unlit: "\<not> candlesLit scene_blown"
    by (simp add: scene_blown_def)
  note first = cake_click_exactly_once [OF v]
  have "gifts_timers (Cake_onClick exact (Cake_onClick exact (perform exact (initial half_draws) Enter)))
      = [\<lparr>tid = nextTimerId (perform exact (initial half_draws) Enter),
          due = now (perform exact (initial half_draws) Enter) + 600,
          period = None, cb = SetStageGifts\<rparr>]"
    using first lit by blast
  then have one: "gifts_timers (Cake_onClick exact (Cake_onClick exact (perform exact (initial half_draws) Enter)))
      = [\<lparr>tid = 2, due = 600, period = None, cb = SetStageGifts\<rparr>]"
    by (simp add: run_enter del: perform.simps)
  have out: "\<not> candlesLit (Cake_onClick exact (Cake_onClick exact (perform exact (initial half_draws) Enter)))"
    using first by (simp del: perform.simps)
  have same: "Cake_onClick exact scene_blown = scene_blown"
    using cake_click_exactly_once [OF scene_blown_view] unlit by blast
  from lit one out unlit same show ?thesis by blast
qed

subsection \<open>The placement engine\<close>

lemma jitter_bound:
  assumes "rounding fl" and "0 \<le> u" and "u < 1" and "\<bar>k\<bar> \<le> 100"
  shows "\<bar>fl (of_int k + fl (fl (fl (u * 2) - 1) * 1)) - of_int k\<bar> \<le> 1"
proof -
  have keep: "fl (of_int j) = of_int j" if "\<bar>j\<bar> \<le> 2 ^ 53" for j :: int
    using assms(1) that by (simp add: rounding_def)
  have up: "fl x \<le> fl y" if "x \<le> y" for x y
    using assms(1) that by (auto simp: rounding_def dest: monoD)
  have f: "fl 0 = 0" "fl 2 = 2" "fl (- 1) = - 1" "fl 1 = 1"
    using keep [of 0] keep [of 2] keep [of "- 1"] keep [of 1] by simp_all
  have lo: "fl (of_int k - 1) = of_int k - 1" and hi: "fl (of_int k + 1) = of_int k + 1"
    using keep [of "k - 1"] keep [of "k + 1"] assms(4) by simp_all
  define a where "a = fl (u * 2)"
  define b where "b = fl (a - 1)"
  define c where "c = fl (b * 1)"
  have a: "0 \<le> a" "a \<le> 2"
    using up [of 0 "u * 2"] up [of "u * 2" 2] assms(2,3) by (simp_all add: a_def f)
  have b: "- 1 \<le> b" "b \<le> 1"
    using up [of "- 1" "a - 1"] up [of "a - 1" 1] a by (simp_all add: b_def f)
  have c: "- 1 \<le> c" "c \<le> 1"
    using up [of "- 1" b] up [of b 1] b by (simp_all add: c_def f)
  have "of_int k - 1 \<le> fl (of_int k + c)" "fl (of_int k + c) \<le> of_int k + 1"
    using up [of "of_int k - 1" "of_int k + c"] up [of "of_int k + c" "of_int k + 1"] c
    by (simp_all add: lo hi)
  then show ?thesis
    unfolding a_def b_def c_def by (simp add: abs_le_iff)
qed

lemma zone_coordinates:
  assumes "i < 6"
  shows "\<exists>k l. px (ZONES ! i) = of_int k \<and> \<bar>k\<bar> \<le> 100 \<and> py (ZONES ! i) = of_int l \<and> \<bar>l\<bar> \<le> 100"
proof -
  from assms consider "i = 0" | "i = 1" | "i = 2" | "i = 3" | "i = 4" | "i = 5"
    by linarith
  then show ?thesis
  proof cases
    case 1
    have "px (ZONES ! i) = of_int 85 \<and> \<bar>85::int\<bar> \<le> 100 \<and> py (ZONES ! i) = of_int 65 \<and> \<bar>65::int\<bar> \<le> 100"
      by (simp add: 1 ZONES_def)
    then show ?thesis by blast
  next
    case 2
    have "px (ZONES ! i) = of_int 17 \<and> \<bar>17::int\<bar> \<le> 100 \<and> py (ZONES ! i) = of_int 48 \<and> \<bar>48::int\<bar> \<le> 100"
      by (simp add: 2 ZONES_def)
    then show ?thesis by blast
  next
    case 3
    have "px (ZONES ! i) = of_int 15 \<and> \<bar>15::int\<bar> \<le> 100 \<and> py (ZONES ! i) = of_int 28 \<and> \<bar>28::int\<bar> \<le> 100"
      by (simp add: 3 ZONES_def)
    then show ?thesis by blast
  next
    case 4
    have "px (ZONES ! i) = of_int 80 \<and> \<bar>80::int\<bar> \<le> 100 \<and> py (ZONES ! i) = of_int 28 \<and> \<bar>28::int\<bar> \<le> 100"
      by (simp add: 4 ZONES_def)
    then show ?thesis by blast
  next
    case 5
    have "px (ZONES ! i) = of_int 20 \<and> \<bar>20::int\<bar> \<le> 100 \<and> py (ZONES ! i) = of_int 78 \<and> \<bar>78::int\<bar> \<le> 100"
      by (simp add: 5 ZONES_def)
    then show ?thesis by blast
  next
    case 6
    have "px (ZONES ! i) = of_int 75 \<and> \<bar>75::int\<bar> \<le> 100 \<and> py (ZONES ! i) = of_int 78 \<and> \<bar>78::int\<bar> \<le> 100"
      by (simp add: 6 ZONES_def)
    then show ?thesis by blast
  qed
qed

lemma new_spot_in_zone:
  assumes "rounding fl" and "0 \<le> u" "u < 1" and "0 \<le> v" "v < 1" and "i < 6"
  shows "in_zone i (new_spot fl i u v)"
proof -
  from zone_coordinates [OF assms(6)] obtain k l where
    z: "px (ZONES ! i) = of_int k" "\<bar>k\<bar> \<le> 100" "py (ZONES ! i) = of_int l" "\<bar>l\<bar> \<le> 100"
    by blast
  from assms(6) have m: "i mod 6 = i" by simp
  show ?thesis
    using jitter_bound [OF assms(1) assms(2,3) z(2)] jitter_bound [OF assms(1) assms(4,5) z(4)]
    by (simp add: in_zone_def new_spot_def m z JITTER_def)
qed

lemma length_ZONES: "length ZONES = 6"
  by (simp add: ZONES_def)

lemma new_spots_placed:
  assumes "rounding fl" and "unit_draws rnd" and "n \<le> 6"
  shows "placed (new_spots fl n rnd)" and "length (new_spots fl n rnd) = n"
proof -
  show len: "length (new_spots fl n rnd) = n"
    by (simp add: new_spots_def)
  have "in_zone i (new_spots fl n rnd ! i)" if "i < n" for i
  proof -
    from that assms(3) have "i < 6" by simp
    from new_spot_in_zone [OF assms(1) _ _ _ _ this, of "rnd (2 * i)" "rnd (2 * i + 1)"] assms(2) that
    show ?thesis by (simp add: new_spots_def unit_draws_def)
  qed
  with len assms(3) show "placed (new_spots fl n rnd)"
    by (simp add: placed_def list_all_iff length_ZONES)
qed

lemma length_entries: "length (entries images) \<le> 6" "spots_length images = length (entries images)"
  "0 < length (entries images)"
  by (auto simp: entries_def COUNT_def spots_length_def fallbacks_def min_def)

lemma unit_draws_drop: "unit_draws rnd \<Longrightarrow> unit_draws (drop_draws k rnd)"
  by (simp add: unit_draws_def drop_draws_def)

lemma zones_apart: "pairwise_apart ZONES" "distinct ZONES"
  by (simp_all add: ZONES_def JITTER_def apart_def)

lemma placed_ok_commit:
  assumes "rounding fl" and "placed_ok s"
  shows "placed_ok (commit fl s)"
proof -
  have n: "spots_length cakeImages \<le> 6"
    using length_entries [of cakeImages] by simp
  have sp: "placed (new_spots fl (spots_length cakeImages) r)"
    "length (new_spots fl (spots_length cakeImages) r) = length (entries cakeImages)"
    if "unit_draws r" for r
    using new_spots_placed [OF assms(1) that n] length_entries(2) [of cakeImages] by simp_all
  from assms(2) show ?thesis
    by (auto simp: placed_ok_def commit_def mount_defs host_defs Let_def unit_draws_drop sp
        split: option.splits)
qed

lemma placed_ok_run_callback:
  assumes "rounding fl" and "placed_ok s"
  shows "placed_ok (run_callback fl f s)"
proof -
  have n: "spots_length cakeImages \<le> 6"
    using length_entries [of cakeImages] by simp
  have sp: "placed (new_spots fl (spots_length cakeImages) r)"
    "length (new_spots fl (spots_length cakeImages) r) = length (entries cakeImages)"
    if "unit_draws r" for r
    using new_spots_placed [OF assms(1) that n] length_entries(2) [of cakeImages] by simp_all
  from assms(2) show ?thesis
    by (cases f)
       (auto simp: placed_ok_def run_callback_def CakeAnimals_interval_def Let_def unit_draws_drop sp
          split: option.splits)
qed

lemma placed_ok_timer_fires:
  assumes "rounding fl" and "placed_ok s"
  shows "placed_ok (timer_fires fl i s)"
proof -
  have "placed_ok (s\<lparr>timers := ts\<rparr>)" for ts
    using assms(2) by (simp add: placed_ok_def)
  then show ?thesis
    using assms
    by (auto simp: timer_fires_def Let_def intro!: placed_ok_commit placed_ok_run_callback
        split: option.splits)
qed

lemma placed_ok_perform:
  assumes "rounding fl" and "placed_ok s"
  shows "placed_ok (perform fl s c)"
proof (cases c)
  case Enter
  have "placed_ok (handleEnter s)" using assms(2) by (simp add: placed_ok_def handleEnter_def)
  with Enter assms(1) show ?thesis by (simp add: placed_ok_commit)
next
  case BlowCandles
  have "placed_ok (handleBlowCandles s)"
    using assms(2) by (simp add: placed_ok_def handleBlowCandles_def host_defs)
  with BlowCandles assms(1) show ?thesis by (simp add: placed_ok_commit)
next
  case (OpenGift i m)
  have "placed_ok (handleOpenGift i m s)"
    using assms(2) by (simp add: placed_ok_def handleOpenGift_def)
  with OpenGift assms(1) show ?thesis by (simp add: placed_ok_commit)
next
  case CloseModal
  have "placed_ok (handleCloseModal s)"
    using assms(2) by (simp add: placed_ok_def handleCloseModal_def Let_def split: option.splits)
  with CloseModal assms(1) show ?thesis by (simp add: placed_ok_commit)
next
  case (Elapse d)
  with assms(2) show ?thesis by (simp add: placed_ok_def)
next
  case (TimerFires i)
  with assms show ?thesis by (simp add: placed_ok_timer_fires)
qed

lemma placed_ok_calls:
  assumes "rounding fl" and "placed_ok s"
  shows "placed_ok (calls fl s cs)"
  using assms(2)
  by (induction cs arbitrary: s) (simp_all add: placed_ok_perform [OF assms(1)] del: perform.simps)

lemma rounding_exact: "rounding exact"
  by (simp add: rounding_def exact_def mono_def)

lemma unit_draws_half: "unit_draws half_draws"
  by (simp add: unit_draws_def half_draws_def)

text \<open>
  Claim C8. Let the rounding be monotone and exact on integers and every draw lie in
  \<open>[0, 1)\<close>. The array of positions that \<open>CakeAnimals\<close> computes, in its initialiser and
  on every tick, for any \<open>images\<close>: has one position for each entry, at most six;
  entity \<open>i\<close> uses zone index \<open>i mod 6 = i\<close>, its own; and its position is within 1
  percentage point of anchor \<open>i\<close> on each axis. The same holds of the positions of
  the mounted component after every sequence of handler calls, elapsed time and timer
  firings from the fresh page. The six anchors are distinct, and for any two of them
  the jitter box's half-diagonal is less than half their distance.
\<close>

theorem positions_stay_in_their_zones:
  assumes "rounding fl" and "unit_draws rnd"
  shows "placed (new_spots fl (spots_length images) rnd)
       \<and> length (new_spots fl (spots_length images) rnd) = length (entries images)
       \<and> length (entries images) \<le> 6
       \<and> map (\<lambda>i. i mod 6) [0..<length (entries images)] = [0..<length (entries images)]
       \<and> (case cakeAnimals (calls fl (initial rnd) cs) of
            None \<Rightarrow> True
          | Some c \<Rightarrow> placed (spots c) \<and> length (spots c) = length (entries cakeImages))
       \<and> distinct ZONES
       \<and> pairwise_apart ZONES"
proof -
  have "placed_ok (initial rnd)"
    using assms(2) by (simp add: placed_ok_def)
  from placed_ok_calls [OF assms(1) this]
  have page: "case cakeAnimals (calls fl (initial rnd) cs) of
            None \<Rightarrow> True
          | Some c \<Rightarrow> placed (spots c) \<and> length (spots c) = length (entries cakeImages)"
    by (simp add: placed_ok_def)
  have "map (\<lambda>i. i mod 6) [0..<length (entries images)] = map (\<lambda>i. i) [0..<length (entries images)]"
    using length_entries(1) [of images] by (intro map_cong) auto
  then have own: "map (\<lambda>i. i mod 6) [0..<length (entries images)] = [0..<length (entries images)]"
    by simp
  from new_spots_placed [OF assms, of "spots_length images"] length_entries [of images] page own zones_apart
  show ?thesis by simp
qed

text \<open>The statement on the exact host with every draw one half: the jitter is zero and
  each entity sits on its anchor.\<close>

theorem positions_stay_in_their_zones_witness:
  "placed (new_spots exact (spots_length cakeImages) half_draws)
   \<and> map left_pc (new_spots exact (spots_length cakeImages) half_draws) = map px ZONES
   \<and> map top_pc (new_spots exact (spots_length cakeImages) half_draws) = map py ZONES"
proof -
  have n: "spots_length cakeImages = 6"
    by (simp add: spots_length_def entries_def COUNT_def cakeImages_def)
  have u: "[0..<6] = [0, 1, 2, 3, 4, 5]"
    by (simp add: upt_rec)
  have "map left_pc (new_spots exact 6 half_draws) = map px ZONES"
    "map top_pc (new_spots exact 6 half_draws) = map py ZONES"
    by (simp_all add: new_spots_def new_spot_def u exact_def half_draws_def ZONES_def JITTER_def)
  with positions_stay_in_their_zones [OF rounding_exact unit_draws_half, of cakeImages "[]"]
  show ?thesis by (simp add: n)
qed

end
